theory Spec2Isabelle
  imports Main "HOL-Library.AList" "HOL-Library.Extended_Nat" "HOL-Library.Word"
begin

section \<open>The TTL-LRU store (class LRUCache of services/cache)\<close>

text \<open>
  A JavaScript \<open>Map\<close> keeps its keys in insertion order: \<open>set\<close> on a present key
  replaces the value in place, \<open>set\<close> on a new key appends, \<open>delete\<close> removes.
  An association list with \<open>AList.update\<close> and \<open>AList.delete\<close> behaves the same way,
  and \<open>map_of\<close> is \<open>Map.get\<close>. Times are milliseconds (\<open>Date.now()\<close>), as integers;
  every operation that reads the clock takes the reading as its first argument (the two
  reads inside one \<open>set\<close> are taken to give the same value). The capacity and the
  times to live are integers as well, of either sign.
\<close>

record 'v CacheEntry =
  data :: 'v
  timestamp :: int
  expiresAt :: int

record ('k, 'v) LRUCache =
  cache :: "('k \<times> 'v CacheEntry) list"
  accessOrder :: "('k \<times> nat) list"
  accessCounter :: nat
  maxSize :: int
  defaultTTL :: int

definition new_LRUCache :: "int \<Rightarrow> int \<Rightarrow> ('k, 'v) LRUCache" where
  "new_LRUCache maxSize0 defaultTTL0 =
     \<lparr>cache = [], accessOrder = [], accessCounter = 0,
      maxSize = maxSize0, defaultTTL = defaultTTL0\<rparr>"

definition size_lru :: "('k, 'v) LRUCache \<Rightarrow> nat" where
  "size_lru s = length (cache s)"

definition delete_lru :: "'k \<Rightarrow> ('k, 'v) LRUCache \<Rightarrow> bool \<times> ('k, 'v) LRUCache" where
  "delete_lru key s =
     (map_of (cache s) key \<noteq> None,
      s\<lparr>cache := AList.delete key (cache s),
        accessOrder := AList.delete key (accessOrder s)\<rparr>)"

definition get_lru :: "int \<Rightarrow> 'k \<Rightarrow> ('k, 'v) LRUCache \<Rightarrow> 'v option \<times> ('k, 'v) LRUCache" where
  "get_lru now key s =
     (case map_of (cache s) key of
        None \<Rightarrow> (None, s)
      | Some entry \<Rightarrow>
          if now > expiresAt entry then (None, snd (delete_lru key s))
          else (Some (data entry),
                s\<lparr>accessOrder := AList.update key (accessCounter s + 1) (accessOrder s),
                  accessCounter := accessCounter s + 1\<rparr>))"

definition has_lru :: "int \<Rightarrow> 'k \<Rightarrow> ('k, 'v) LRUCache \<Rightarrow> bool \<times> ('k, 'v) LRUCache" where
  "has_lru now key s =
     (case map_of (cache s) key of
        None \<Rightarrow> (False, s)
      | Some entry \<Rightarrow>
          if now > expiresAt entry then (False, snd (delete_lru key s))
          else (True, s))"

text \<open>
  The scan of \<open>evictLRU\<close>: \<open>lruKey\<close> starts undefined and \<open>lruAccessTime\<close> at
  \<open>Infinity\<close>; an entry replaces them when its access time is strictly smaller.
\<close>

definition evictLRU_step :: "'k \<times> nat \<Rightarrow> 'k option \<times> enat \<Rightarrow> 'k option \<times> enat" where
  "evictLRU_step e acc =
     (if enat (snd e) < snd acc then (Some (fst e), enat (snd e)) else acc)"

definition evictLRU_scan :: "('k \<times> nat) list \<Rightarrow> 'k option \<times> enat" where
  "evictLRU_scan ao = fold evictLRU_step ao (None, \<infinity>)"

definition evictLRU :: "('k, 'v) LRUCache \<Rightarrow> ('k, 'v) LRUCache" where
  "evictLRU s =
     (if size_lru s = 0 then s
      else case fst (evictLRU_scan (accessOrder s)) of
             None \<Rightarrow> s
           | Some lruKey \<Rightarrow> snd (delete_lru lruKey s))"

text \<open>
  \<open>ttl || this.defaultTTL\<close>: an omitted \<open>ttl\<close> (\<open>None\<close>) and a \<open>ttl\<close> of \<open>0\<close> are
  both falsy, so both take the default.
\<close>

definition effective_ttl :: "int option \<Rightarrow> int \<Rightarrow> int" where
  "effective_ttl ttl dflt = (case ttl of None \<Rightarrow> dflt | Some t \<Rightarrow> if t = 0 then dflt else t)"

definition set_lru ::
  "int \<Rightarrow> 'k \<Rightarrow> 'v \<Rightarrow> int option \<Rightarrow> ('k, 'v) LRUCache \<Rightarrow> ('k, 'v) LRUCache" where
  "set_lru now key val ttl s =
     (let entry = \<lparr>data = val, timestamp = now,
                   expiresAt = now + effective_ttl ttl (defaultTTL s)\<rparr>
      in if map_of (cache s) key \<noteq> None
         then s\<lparr>cache := AList.update key entry (cache s),
                accessOrder := AList.update key (accessCounter s + 1) (accessOrder s),
                accessCounter := accessCounter s + 1\<rparr>
         else let s1 = (if int (size_lru s) \<ge> maxSize s then evictLRU s else s)
              in s1\<lparr>cache := AList.update key entry (cache s1),
                    accessOrder := AList.update key (accessCounter s1 + 1) (accessOrder s1),
                    accessCounter := accessCounter s1 + 1\<rparr>)"

definition clear_lru :: "('k, 'v) LRUCache \<Rightarrow> ('k, 'v) LRUCache" where
  "clear_lru s = s\<lparr>cache := [], accessOrder := [], accessCounter := 0\<rparr>"

definition delete_all :: "'k list \<Rightarrow> ('k, 'v) LRUCache \<Rightarrow> ('k, 'v) LRUCache" where
  "delete_all ks s = fold (\<lambda>k t. snd (delete_lru k t)) ks s"

definition keys_lru :: "int \<Rightarrow> ('k, 'v) LRUCache \<Rightarrow> 'k list \<times> ('k, 'v) LRUCache" where
  "keys_lru now s =
     (map fst (filter (\<lambda>(k, e). now \<le> expiresAt e) (cache s)),
      delete_all (map fst (filter (\<lambda>(k, e). \<not> now \<le> expiresAt e) (cache s))) s)"

definition cleanup_lru :: "int \<Rightarrow> ('k, 'v) LRUCache \<Rightarrow> nat \<times> ('k, 'v) LRUCache" where
  "cleanup_lru now s =
     (let keysToDelete = map fst (filter (\<lambda>(k, e). now > expiresAt e) (cache s))
      in (length keysToDelete, delete_all keysToDelete s))"

text \<open>A call of one of the store's methods, with the clock reading where the method takes one.\<close>

datatype ('k, 'v) lru_op =
    OpGet int 'k
  | OpSet int 'k 'v "int option"
  | OpHas int 'k
  | OpDelete 'k
  | OpClear
  | OpKeys int
  | OpCleanup int

fun apply_lru_op :: "('k, 'v) lru_op \<Rightarrow> ('k, 'v) LRUCache \<Rightarrow> ('k, 'v) LRUCache" where
  "apply_lru_op (OpGet now k) s = snd (get_lru now k s)"
| "apply_lru_op (OpSet now k v ttl) s = set_lru now k v ttl s"
| "apply_lru_op (OpHas now k) s = snd (has_lru now k s)"
| "apply_lru_op (OpDelete k) s = snd (delete_lru k s)"
| "apply_lru_op OpClear s = clear_lru s"
| "apply_lru_op (OpKeys now) s = snd (keys_lru now s)"
| "apply_lru_op (OpCleanup now) s = snd (cleanup_lru now s)"

definition run_lru :: "('k, 'v) lru_op list \<Rightarrow> ('k, 'v) LRUCache \<Rightarrow> ('k, 'v) LRUCache" where
  "run_lru ops s = fold apply_lru_op ops s"


text \<open>
  The two maps of the store always hold the same keys in the same order, each once;
  \<open>lru_inv\<close> adds the capacity bound.
\<close>

definition lru_wf :: "('k, 'v) LRUCache \<Rightarrow> bool" where
  "lru_wf s = (map fst (accessOrder s) = map fst (cache s) \<and> distinct (map fst (cache s)))"

definition lru_inv :: "('k, 'v) LRUCache \<Rightarrow> bool" where
  "lru_inv s = (lru_wf s \<and> int (size_lru s) \<le> maxSize s)"

text \<open>A store of capacity 2 after \<open>set A\<close>, \<open>set B\<close>.\<close>

definition abc_store :: "(string, nat) LRUCache" where
  "abc_store = run_lru [OpSet 1 ''A'' 10 None, OpSet 2 ''B'' 20 None] (new_LRUCache 2 300000)"


text \<open>
  \<open>getStats\<close> scans the values without deleting anything; the hit rate it reports is the
  constant placeholder of \<open>calculateHitRate\<close> (\<open>0.85\<close> when the store is not empty).
  JavaScript numbers that are not integers are modelled as rationals.
\<close>

record lru_stats =
  stats_size :: nat
  stats_maxSize :: int
  stats_hitRate :: rat
  oldestEntry :: "int option"
  newestEntry :: "int option"

definition calculateHitRate :: "('k, 'v) LRUCache \<Rightarrow> rat" where
  "calculateHitRate s = (if size_lru s > 0 then 85 / 100 else 0)"

definition getStats_step ::
  "int \<Rightarrow> 'v CacheEntry \<Rightarrow> int option \<times> int option \<times> nat \<Rightarrow> int option \<times> int option \<times> nat" where
  "getStats_step now entry acc =
     (case acc of (oldest, newest, valid) \<Rightarrow>
        if now \<le> expiresAt entry then
          ((case oldest of None \<Rightarrow> Some (timestamp entry)
             | Some t \<Rightarrow> if timestamp entry < t then Some (timestamp entry) else Some t),
           (case newest of None \<Rightarrow> Some (timestamp entry)
             | Some t \<Rightarrow> if timestamp entry > t then Some (timestamp entry) else Some t),
           valid + 1)
        else acc)"

definition getStats_lru :: "int \<Rightarrow> ('k, 'v) LRUCache \<Rightarrow> lru_stats" where
  "getStats_lru now s =
     (case fold (getStats_step now) (map snd (cache s)) (None, None, 0) of
        (oldest, newest, valid) \<Rightarrow>
          \<lparr>stats_size = valid, stats_maxSize = maxSize s, stats_hitRate = calculateHitRate s,
           oldestEntry = oldest, newestEntry = newest\<rparr>)"

section \<open>The cache manager (class CacheManager of services/cache)\<close>

record ('k, 'v) CacheManager =
  lru :: "('k, 'v) LRUCache"
  hitCount :: nat
  missCount :: nat

definition new_CacheManager :: "int \<Rightarrow> int \<Rightarrow> ('k, 'v) CacheManager" where
  "new_CacheManager maxSize0 ttl = \<lparr>lru = new_LRUCache maxSize0 ttl, hitCount = 0, missCount = 0\<rparr>"

definition get_cm :: "int \<Rightarrow> 'k \<Rightarrow> ('k, 'v) CacheManager \<Rightarrow> 'v option \<times> ('k, 'v) CacheManager" where
  "get_cm now key m =
     (case get_lru now key (lru m) of
        (val, c) \<Rightarrow>
          if val \<noteq> None then (val, m\<lparr>lru := c, hitCount := hitCount m + 1\<rparr>)
          else (val, m\<lparr>lru := c, missCount := missCount m + 1\<rparr>))"

definition set_cm ::
  "int \<Rightarrow> 'k \<Rightarrow> 'v \<Rightarrow> int option \<Rightarrow> ('k, 'v) CacheManager \<Rightarrow> ('k, 'v) CacheManager" where
  "set_cm now key val ttl m = m\<lparr>lru := set_lru now key val ttl (lru m)\<rparr>"

definition has_cm :: "int \<Rightarrow> 'k \<Rightarrow> ('k, 'v) CacheManager \<Rightarrow> bool \<times> ('k, 'v) CacheManager" where
  "has_cm now key m = (case has_lru now key (lru m) of (b, c) \<Rightarrow> (b, m\<lparr>lru := c\<rparr>))"

definition delete_cm :: "'k \<Rightarrow> ('k, 'v) CacheManager \<Rightarrow> bool \<times> ('k, 'v) CacheManager" where
  "delete_cm key m = (case delete_lru key (lru m) of (b, c) \<Rightarrow> (b, m\<lparr>lru := c\<rparr>))"

definition clear_cm :: "('k, 'v) CacheManager \<Rightarrow> ('k, 'v) CacheManager" where
  "clear_cm m = m\<lparr>lru := clear_lru (lru m), hitCount := 0, missCount := 0\<rparr>"

definition getHitRate :: "('k, 'v) CacheManager \<Rightarrow> rat" where
  "getHitRate m =
     (let total = hitCount m + missCount m
      in if total > 0 then of_nat (hitCount m) / of_nat total else 0)"

record cm_stats = lru_stats +
  stats_hitCount :: nat
  stats_missCount :: nat

definition getStats_cm :: "int \<Rightarrow> ('k, 'v) CacheManager \<Rightarrow> cm_stats" where
  "getStats_cm now m =
     (let base = getStats_lru now (lru m)
      in \<lparr>stats_size = stats_size base, stats_maxSize = stats_maxSize base,
          stats_hitRate = getHitRate m,
          oldestEntry = oldestEntry base, newestEntry = newestEntry base,
          stats_hitCount = hitCount m, stats_missCount = missCount m\<rparr>)"

definition destroy_cm :: "('k, 'v) CacheManager \<Rightarrow> ('k, 'v) CacheManager" where
  "destroy_cm m = m\<lparr>lru := clear_lru (lru m)\<rparr>"

text \<open>
  A call on the manager; \<open>CmSweep\<close> is one firing of the periodic cleanup timer.
  \<open>lookups\<close> replays a call sequence and collects what each \<open>get\<close> since the last
  \<open>clear\<close> returned.
\<close>

datatype ('k, 'v) cm_op =
    CmGet int 'k
  | CmSet int 'k 'v "int option"
  | CmHas int 'k
  | CmDelete 'k
  | CmClear
  | CmSweep int
  | CmDestroy

fun apply_cm_op :: "('k, 'v) cm_op \<Rightarrow> ('k, 'v) CacheManager \<Rightarrow> ('k, 'v) CacheManager" where
  "apply_cm_op (CmGet now k) m = snd (get_cm now k m)"
| "apply_cm_op (CmSet now k v ttl) m = set_cm now k v ttl m"
| "apply_cm_op (CmHas now k) m = snd (has_cm now k m)"
| "apply_cm_op (CmDelete k) m = snd (delete_cm k m)"
| "apply_cm_op CmClear m = clear_cm m"
| "apply_cm_op (CmSweep now) m = m\<lparr>lru := snd (cleanup_lru now (lru m))\<rparr>"
| "apply_cm_op CmDestroy m = destroy_cm m"

definition run_cm :: "('k, 'v) cm_op list \<Rightarrow> ('k, 'v) CacheManager \<Rightarrow> ('k, 'v) CacheManager" where
  "run_cm ops m = fold apply_cm_op ops m"

fun observe ::
  "('k, 'v) cm_op \<Rightarrow> ('k, 'v) CacheManager \<Rightarrow> 'v option list \<Rightarrow> 'v option list" where
  "observe (CmGet now k) m acc = acc @ [fst (get_cm now k m)]"
| "observe (CmSet now k v ttl) m acc = acc"
| "observe (CmHas now k) m acc = acc"
| "observe (CmDelete k) m acc = acc"
| "observe CmClear m acc = []"
| "observe (CmSweep now) m acc = acc"
| "observe CmDestroy m acc = acc"

fun lookups ::
  "('k, 'v) cm_op list \<Rightarrow> ('k, 'v) CacheManager \<Rightarrow> 'v option list \<Rightarrow> 'v option list" where
  "lookups [] m acc = acc"
| "lookups (a # ops) m acc = lookups ops (apply_cm_op a m) (observe a m acc)"

definition hits :: "'v option list \<Rightarrow> nat" where
  "hits rs = length (filter (\<lambda>r. r \<noteq> None) rs)"

definition misses :: "'v option list \<Rightarrow> nat" where
  "misses rs = length (filter (\<lambda>r. r = None) rs)"

text \<open>A run with three hits and one miss.\<close>

definition three_hits_one_miss :: "(string, nat) cm_op list" where
  "three_hits_one_miss =
     [CmSet 1 ''a'' 1 None, CmGet 2 ''a'', CmGet 2 ''a'', CmGet 3 ''b'', CmGet 4 ''a'']"

section \<open>Strings and city names (services/weatherApi)\<close>

text \<open>
  A JavaScript string is a sequence of 16-bit code units, and \<open>length\<close> counts them.
  \<open>js\<close> turns a literal of Latin-1 characters into one.
\<close>

type_synonym jsstring = "16 word list"

definition js :: "string \<Rightarrow> jsstring" where
  "js s = map (\<lambda>c. of_nat (of_char c)) s"

text \<open>
  The class \<open>\s\<close> of a regular expression: the white space and line terminator code
  units of ECMAScript (tab, line feed, vertical tab, form feed, carriage return, space,
  no-break space, the Unicode space separators, line and paragraph separator, and the
  byte order mark).
\<close>

definition is_whitespace :: "16 word \<Rightarrow> bool" where
  "is_whitespace c =
     ((0x0009 \<le> c \<and> c \<le> 0x000D) \<or> c = 0x0020 \<or> c = 0x00A0 \<or> c = 0x1680
      \<or> (0x2000 \<le> c \<and> c \<le> 0x200A) \<or> c = 0x2028 \<or> c = 0x2029 \<or> c = 0x202F
      \<or> c = 0x205F \<or> c = 0x3000 \<or> c = 0xFEFF)"

definition is_ascii_letter :: "16 word \<Rightarrow> bool" where
  "is_ascii_letter c = ((0x61 \<le> c \<and> c \<le> 0x7A) \<or> (0x41 \<le> c \<and> c \<le> 0x5A))"

text \<open>The character class \<open>[a-zA-Z\s\-',.]\<close> of \<open>validateCityName\<close>.\<close>

definition city_char :: "16 word \<Rightarrow> bool" where
  "city_char c =
     (is_ascii_letter c \<or> is_whitespace c \<or> c = 0x2D \<or> c = 0x27 \<or> c = 0x2C \<or> c = 0x2E)"

section \<open>Errors\<close>

text \<open>
  The error classes of the service, each with its message and its optional \<open>status\<close> and
  \<open>code\<close>; \<open>AbortError\<close> is what \<open>fetch\<close> rejects with when its signal is aborted, and
  \<open>PlainError\<close> is any other \<open>Error\<close>, by name or message.
\<close>

datatype error =
    NetworkError string "nat option" "string option"
  | ValidationError string "string option"
  | ApiError string nat "string option"
  | AbortError
  | PlainError string

definition validateCityName :: "jsstring \<Rightarrow> error + unit" where
  "validateCityName city =
     (if city = [] then Inl (ValidationError ''City name is required'' None)
      else if length city > 100 then Inl (ValidationError ''City name is too long'' None)
      else if \<not> (city \<noteq> [] \<and> list_all city_char city)
        then Inl (ValidationError ''Invalid city name format'' None)
      else Inr ())"

section \<open>The circuit breaker\<close>

datatype breaker_state = CLOSED | OPEN | HALF_OPEN

record CircuitBreaker =
  failureCount :: nat
  lastFailureTime :: int
  state :: breaker_state
  failureThreshold :: int
  recoveryTimeout :: int

definition new_CircuitBreaker :: "int \<Rightarrow> int \<Rightarrow> CircuitBreaker" where
  "new_CircuitBreaker threshold timeout =
     \<lparr>failureCount = 0, lastFailureTime = 0, state = CLOSED,
      failureThreshold = threshold, recoveryTimeout = timeout\<rparr>"

definition onSuccess :: "CircuitBreaker \<Rightarrow> CircuitBreaker" where
  "onSuccess b = b\<lparr>failureCount := 0, state := CLOSED\<rparr>"

definition onFailure :: "int \<Rightarrow> CircuitBreaker \<Rightarrow> CircuitBreaker" where
  "onFailure now b =
     (let b1 = b\<lparr>failureCount := failureCount b + 1, lastFailureTime := now\<rparr>
      in if int (failureCount b1) \<ge> failureThreshold b1 then b1\<lparr>state := OPEN\<rparr> else b1)"

text \<open>
  The first statement of \<open>call\<close>: an open breaker either moves to half-open, when the
  recovery timeout has elapsed, or throws.
\<close>

definition admit :: "int \<Rightarrow> CircuitBreaker \<Rightarrow> error + CircuitBreaker" where
  "admit now b =
     (if state b = OPEN then
        (if now - lastFailureTime b > recoveryTimeout b then Inr (b\<lparr>state := HALF_OPEN\<rparr>)
         else Inl (NetworkError ''Circuit breaker is OPEN'' None None))
      else Inr b)"

section \<open>Asynchronous operations, run one at a time\<close>

text \<open>
  What an asynchronous operation of the service can read and change: the clock, the
  service's breaker and abort controller, and two counters kept for the proofs, of the
  invocations of the downstream operation and of the draws of \<open>Math.random()\<close>.
  Abort controllers are numbered in the order of their creation; \<open>aborted\<close> lists those
  whose \<open>abort()\<close> was called. An operation (a function returning a promise) is a
  function from this state to its settlement, \<open>Inr\<close> for a fulfilled and \<open>Inl\<close> for
  a rejected promise, and the state at that moment.
\<close>

record sys =
  clock :: int
  invocations :: nat
  randoms :: nat
  circuitBreaker :: CircuitBreaker
  abortController :: "nat option"
  controllers :: nat
  aborted :: "nat list"

type_synonym 'a task = "sys \<Rightarrow> (error + 'a) \<times> sys"

definition call :: "'a task \<Rightarrow> 'a task" where
  "call fn \<sigma> =
     (case admit (clock \<sigma>) (circuitBreaker \<sigma>) of
        Inl e \<Rightarrow> (Inl e, \<sigma>)
      | Inr b \<Rightarrow>
          (case fn (\<sigma>\<lparr>circuitBreaker := b\<rparr>) of
             (Inr result, \<sigma>') \<Rightarrow>
               (Inr result, \<sigma>'\<lparr>circuitBreaker := onSuccess (circuitBreaker \<sigma>')\<rparr>)
           | (Inl e, \<sigma>') \<Rightarrow>
               (Inl e, \<sigma>'\<lparr>circuitBreaker := onFailure (clock \<sigma>') (circuitBreaker \<sigma>')\<rparr>)))"

text \<open>
  \<open>setTimeout\<close> treats a negative delay as zero. \<open>random1000 rnd\<close> is
  \<open>Math.random() * 1000\<close>, in whole milliseconds: the \<open>i\<close>-th draw gives \<open>rnd i\<close>.
\<close>

definition sleep :: "int \<Rightarrow> sys \<Rightarrow> sys" where
  "sleep delay \<sigma> = \<sigma>\<lparr>clock := clock \<sigma> + max 0 delay\<rparr>"

definition random1000 :: "(nat \<Rightarrow> int) \<Rightarrow> sys \<Rightarrow> int \<times> sys" where
  "random1000 rnd \<sigma> = (rnd (randoms \<sigma>), \<sigma>\<lparr>randoms := randoms \<sigma> + 1\<rparr>)"

text \<open>The loop of \<open>retryWithBackoff\<close>, from a given value of \<open>attempt\<close>.\<close>

function retry_from ::
  "(nat \<Rightarrow> int) \<Rightarrow> 'a task \<Rightarrow> int \<Rightarrow> int \<Rightarrow> nat \<Rightarrow> 'a task" where
  "retry_from rnd fn maxRetries baseDelay attempt \<sigma> =
     (if int attempt \<le> maxRetries then
        (case fn \<sigma> of
           (Inr result, \<sigma>') \<Rightarrow> (Inr result, \<sigma>')
         | (Inl e, \<sigma>') \<Rightarrow>
             if int attempt = maxRetries then (Inl e, \<sigma>')
             else (case random1000 rnd \<sigma>' of
                     (jitter, \<sigma>'') \<Rightarrow>
                       retry_from rnd fn maxRetries baseDelay (attempt + 1)
                         (sleep (baseDelay * 2 ^ attempt + jitter) \<sigma>'')))
      else (Inl (PlainError ''Max retries exceeded''), \<sigma>))"
  by pat_completeness auto
termination
  by (relation "measure (\<lambda>(rnd, fn, maxRetries, baseDelay, attempt, \<sigma>).
        nat (maxRetries + 1 - int attempt))") auto

declare retry_from.simps [simp del]

definition retryWithBackoff :: "(nat \<Rightarrow> int) \<Rightarrow> 'a task \<Rightarrow> int \<Rightarrow> int \<Rightarrow> 'a task" where
  "retryWithBackoff rnd fn maxRetries baseDelay = retry_from rnd fn maxRetries baseDelay 0"

text \<open>
  \<open>withTimeout\<close> races a promise against a timer. The promise that is given to it is
  already running and runs to its end whoever wins, so its effects are kept; when the
  timer fires first the result is the timeout error, at the time of the timer.
\<close>

definition withTimeout :: "'a task \<Rightarrow> int \<Rightarrow> 'a task" where
  "withTimeout p timeoutMs \<sigma> =
     (case p \<sigma> of
        (r, \<sigma>') \<Rightarrow>
          if clock \<sigma>' - clock \<sigma> < timeoutMs then (r, \<sigma>')
          else (Inl (NetworkError ''Request timeout'' None (Some ''TIMEOUT'')),
                \<sigma>'\<lparr>clock := clock \<sigma> + max 0 timeoutMs\<rparr>))"

text \<open>
  A downstream operation is given by its script: its \<open>i\<close>-th invocation (counted from
  0, over the whole run) settles after \<open>fst (script i)\<close> milliseconds with
  \<open>snd (script i)\<close>.
\<close>

definition scripted :: "(nat \<Rightarrow> int \<times> (error + 'a)) \<Rightarrow> 'a task" where
  "scripted script \<sigma> =
     (case script (invocations \<sigma>) of
        (latency, r) \<Rightarrow>
          (r, \<sigma>\<lparr>invocations := invocations \<sigma> + 1, clock := clock \<sigma> + max 0 latency\<rparr>))"

section \<open>The weather service\<close>

text \<open>
  What \<open>fetch\<close> can answer: a rejection, or a response with its status and its body.
  Of the body the code reads whether it parses as JSON and, of the value parsed, its
  \<open>message\<close> property and whether it passes \<open>isWeatherApiResponse\<close>. The value
  \<open>null\<close> stands apart: it has no properties, and reading \<open>message\<close> of it throws a
  \<open>TypeError\<close>. Any other value is given by its \<open>message\<close>, when it has one, as the
  string an \<open>Error\<close> makes of it, and by its payload: it fails the type guard, or it
  passes and \<open>transformWeatherData\<close> makes a value of it, or it passes and the
  transformation throws a \<open>TypeError\<close> (the guard checks neither that the \<open>weather\<close>
  array has an element nor that \<open>sys\<close> is there).
\<close>

datatype 'd payload = NotWeather | Untransformable | Weather 'd

datatype 'd json = JsonError | JsonNull | Json "string option" "'d payload"

datatype 'd fetch_reply = FetchRejects error | Response nat "'d json"

text \<open>
  \<open>errorData.message || "Unknown API error"\<close>, where \<open>errorData\<close> is the parsed body, or
  \<open>{}\<close> when the body does not parse.
\<close>

definition errorData_message :: "'d json \<Rightarrow> error + string" where
  "errorData_message body =
     (case body of
        JsonError \<Rightarrow> Inr ''Unknown API error''
      | JsonNull \<Rightarrow> Inl (PlainError ''TypeError'')
      | Json None p \<Rightarrow> Inr ''Unknown API error''
      | Json (Some m) p \<Rightarrow> Inr (if m = [] then ''Unknown API error'' else m))"

definition fetchWeatherData_result :: "'d fetch_reply \<Rightarrow> error + 'd" where
  "fetchWeatherData_result rep =
     (case rep of
        FetchRejects e \<Rightarrow> Inl e
      | Response status body \<Rightarrow>
          if \<not> (200 \<le> status \<and> status \<le> 299) then
            (if status = 404 then Inl (ApiError ''City not found'' 404 (Some ''CITY_NOT_FOUND''))
             else if status = 401
               then Inl (ApiError ''Invalid API key'' 401 (Some ''INVALID_API_KEY''))
             else if status = 429
               then Inl (ApiError ''Rate limit exceeded'' 429 (Some ''RATE_LIMIT''))
             else if status = 500 \<or> status = 502 \<or> status = 503 \<or> status = 504
               then Inl (ApiError ''Server error'' status (Some ''SERVER_ERROR''))
             else (case errorData_message body of
                     Inl e \<Rightarrow> Inl e
                   | Inr m \<Rightarrow> Inl (ApiError m status (Some ''UNKNOWN_ERROR''))))
          else (case body of
                  JsonError \<Rightarrow> Inl (PlainError ''SyntaxError'')
                | JsonNull \<Rightarrow> Inl (ValidationError ''Invalid API response format'' None)
                | Json m NotWeather \<Rightarrow> Inl (ValidationError ''Invalid API response format'' None)
                | Json m Untransformable \<Rightarrow> Inl (PlainError ''TypeError'')
                | Json m (Weather d) \<Rightarrow> Inr d))"

text \<open>
  The network and the random source of one run: the reply to the \<open>i\<close>-th request, for
  its city, with its latency in milliseconds, and the \<open>i\<close>-th random jitter.
\<close>

record 'd network =
  reply :: "jsstring \<Rightarrow> nat \<Rightarrow> int \<times> 'd fetch_reply"
  random :: "nat \<Rightarrow> int"

definition fetch_script :: "'d network \<Rightarrow> jsstring \<Rightarrow> nat \<Rightarrow> int \<times> (error + 'd)" where
  "fetch_script net city i =
     (case reply net city i of (latency, rep) \<Rightarrow> (latency, fetchWeatherData_result rep))"

definition fetchWeatherData :: "'d network \<Rightarrow> jsstring \<Rightarrow> 'd task" where
  "fetchWeatherData net city = scripted (fetch_script net city)"

definition REQUEST_TIMEOUT :: int where
  "REQUEST_TIMEOUT = 10000"

definition cancelRequests :: "sys \<Rightarrow> sys" where
  "cancelRequests \<sigma> =
     (case abortController \<sigma> of
        None \<Rightarrow> \<sigma>
      | Some c \<Rightarrow> \<sigma>\<lparr>aborted := c # aborted \<sigma>, abortController := None\<rparr>)"

definition new_AbortController :: "sys \<Rightarrow> sys" where
  "new_AbortController \<sigma> =
     \<sigma>\<lparr>abortController := Some (controllers \<sigma>), controllers := controllers \<sigma> + 1\<rparr>"

definition fetchWeather :: "'d network \<Rightarrow> jsstring \<Rightarrow> 'd task" where
  "fetchWeather net city \<sigma> =
     (case validateCityName city of
        Inl e \<Rightarrow> (Inl e, \<sigma>)
      | Inr u \<Rightarrow>
          call (retryWithBackoff (random net)
                  (withTimeout (fetchWeatherData net city) REQUEST_TIMEOUT) 3 1000)
            (new_AbortController (cancelRequests \<sigma>)))"

text \<open>
  The composition as the specification words it, for comparison: the timeout guard
  around the retry executor around the breaker around the raw fetch.
\<close>

definition spec_fetchWeather :: "'d network \<Rightarrow> jsstring \<Rightarrow> 'd task" where
  "spec_fetchWeather net city \<sigma> =
     (case validateCityName city of
        Inl e \<Rightarrow> (Inl e, \<sigma>)
      | Inr u \<Rightarrow>
          withTimeout (retryWithBackoff (random net) (call (fetchWeatherData net city)) 3 1000)
            REQUEST_TIMEOUT
            (new_AbortController (cancelRequests \<sigma>)))"

text \<open>A service just constructed, at a given time, and a network that always answers the same.\<close>

definition new_sys :: "int \<Rightarrow> sys" where
  "new_sys t = \<lparr>clock = t, invocations = 0, randoms = 0,
                circuitBreaker = new_CircuitBreaker 5 60000,
                abortController = None, controllers = 0, aborted = []\<rparr>"

definition always :: "int \<Rightarrow> 'd fetch_reply \<Rightarrow> 'd network" where
  "always latency rep = \<lparr>reply = (\<lambda>city i. (latency, rep)), random = (\<lambda>i. 500)\<rparr>"

section \<open>Auxiliary notions for the proofs about the service\<close>

text \<open>
  The timeout guard around a scripted operation is again a scripted operation, with
  the script \<open>timed\<close>: an invocation that does not settle before the deadline settles at
  the deadline with the timeout error. \<open>backoff\<close> is the wait between two attempts of the
  retry loop: one random draw, then the sleep.
\<close>

definition timeout_error :: error where
  "timeout_error = NetworkError ''Request timeout'' None (Some ''TIMEOUT'')"

definition timed :: "(nat \<Rightarrow> int \<times> (error + 'a)) \<Rightarrow> int \<Rightarrow> nat \<Rightarrow> int \<times> (error + 'a)" where
  "timed script timeoutMs i =
     (case script i of
        (latency, r) \<Rightarrow>
          if max 0 latency < timeoutMs then (latency, r) else (max 0 timeoutMs, Inl timeout_error))"

definition backoff :: "(nat \<Rightarrow> int) \<Rightarrow> int \<Rightarrow> nat \<Rightarrow> sys \<Rightarrow> sys" where
  "backoff rnd baseDelay attempt \<sigma> =
     sleep (baseDelay * 2 ^ attempt + fst (random1000 rnd \<sigma>)) (snd (random1000 rnd \<sigma>))"

text \<open>The script of the guarded attempts of \<open>fetchWeather\<close> for a city.\<close>

definition attempt_script :: "'d network \<Rightarrow> jsstring \<Rightarrow> nat \<Rightarrow> int \<times> (error + 'd)" where
  "attempt_script net city = timed (fetch_script net city) REQUEST_TIMEOUT"

text \<open>
  A service whose breaker opened at time 1000, seen at a later time, and an operation
  that fails \<open>n\<close> times before it succeeds.
\<close>

definition open_sys :: "int \<Rightarrow> sys" where
  "open_sys t = (new_sys t)\<lparr>circuitBreaker :=
      \<lparr>failureCount = 5, lastFailureTime = 1000, state = OPEN,
       failureThreshold = 5, recoveryTimeout = 60000\<rparr>\<rparr>"

definition flaky :: "nat \<Rightarrow> nat \<Rightarrow> int \<times> (error + nat)" where
  "flaky n i = (100, if i < n then Inl (NetworkError ''down'' None None) else Inr 7)"

text \<open>The condition under which \<open>call\<close> throws at once: the breaker is open and still cooling down.\<close>

definition fail_fast_now :: "sys \<Rightarrow> bool" where
  "fail_fast_now \<sigma> =
     (state (circuitBreaker \<sigma>) = OPEN
      \<and> clock \<sigma> - lastFailureTime (circuitBreaker \<sigma>) \<le> recoveryTimeout (circuitBreaker \<sigma>))"

text \<open>A network whose first reply comes after the deadline, and every later one in time.\<close>

definition late_then_ok :: "nat network" where
  "late_then_ok =
     \<lparr>reply = (\<lambda>city i. if i = 0 then (20000, Response 200 (Json None (Weather 7)))
                        else (100, Response 200 (Json None (Weather 7)))),
      random = (\<lambda>i. 500)\<rparr>"

text \<open>
  The city names that \<open>validateCityName\<close> rejects, in words of their characters: the
  empty string, a string of more than 100 code units, and a string with a code unit
  that is not an ASCII letter, white space, hyphen, apostrophe, comma or full stop.
\<close>

definition bad_city :: "jsstring \<Rightarrow> bool" where
  "bad_city city =
     (city = [] \<or> length city > 100
      \<or> (\<exists>c\<in>set city. \<not> (is_ascii_letter c \<or> is_whitespace c
                              \<or> c = 0x2D \<or> c = 0x27 \<or> c = 0x2C \<or> c = 0x2E)))"

section \<open>The hook useWeatherData, as a machine of events\<close>

text \<open>
  Calls of the hook's \<open>fetchWeather\<close> overlap: a call runs up to its \<open>await\<close> of the
  service, and goes on when the request it waits for settles, while other calls run in
  between. The state below is what these calls share: the state the hook shows (data,
  loading flag, error, request count, hit rate, search history), its cache, its own
  abort controller, the service (the record \<open>sys\<close>, whose clock is the time of the last
  event), and the calls that are waiting. The response times, which are floating-point
  durations, are left out. A waiting call knows its city, the attempt of the retry loop
  it is in, the abort signal its request in flight was given, and whether it is in the
  backoff wait between two attempts instead.
\<close>

record waiting =
  cityName :: jsstring
  normalizedCity :: jsstring
  attempt :: nat
  signal :: "nat option"
  sleeping :: bool

record 'd hook =
  shown :: "'d option"
  loading :: bool
  shown_error :: "error option"
  requestCount :: nat
  cacheHitRate :: rat
  searchHistory :: "(jsstring \<times> int \<times> 'd) list"
  cacheRef :: "(jsstring, 'd) CacheManager"
  abortControllerRef :: "nat option"
  service :: sys
  inflight :: "waiting list"

definition CACHE_TTL :: int where
  "CACHE_TTL = 300000"

definition MAX_CACHE_SIZE :: int where
  "MAX_CACHE_SIZE = 50"

definition MAX_SEARCH_HISTORY :: nat where
  "MAX_SEARCH_HISTORY = 10"

definition new_hook :: "int \<Rightarrow> 'd hook" where
  "new_hook t =
     \<lparr>shown = None, loading = False, shown_error = None, requestCount = 0, cacheHitRate = 0,
      searchHistory = [], cacheRef = new_CacheManager MAX_CACHE_SIZE CACHE_TTL,
      abortControllerRef = None, service = new_sys t, inflight = []\<rparr>"

definition trim :: "jsstring \<Rightarrow> jsstring" where
  "trim s = rev (dropWhile is_whitespace (rev (dropWhile is_whitespace s)))"

text \<open>
  \<open>String.prototype.toLowerCase\<close> is a function of the runtime, over all of Unicode
  (it maps the Kelvin sign to \<open>k\<close> and may change the length of a string). The hook
  applies it before any validation, so the model of the hook takes it as a parameter,
  \<open>toLowerCase\<close>, and what is proved of the hook holds for the runtime's function.
  \<open>ascii_lower\<close> is what that function does on a string of ASCII code units.
\<close>

definition ascii_lower :: "jsstring \<Rightarrow> jsstring" where
  "ascii_lower s = map (\<lambda>c. if 0x41 \<le> c \<and> c \<le> 0x5A then c + 0x20 else c) s"

definition updateSearchHistory :: "int \<Rightarrow> jsstring \<Rightarrow> 'd \<Rightarrow> 'd hook \<Rightarrow> 'd hook" where
  "updateSearchHistory now city d h =
     h\<lparr>searchHistory :=
         take MAX_SEARCH_HISTORY
           ((city, now, d) # filter (\<lambda>entry. fst entry \<noteq> city) (searchHistory h))\<rparr>"

text \<open>The \<open>catch\<close> block of the hook: an \<open>AbortError\<close> is dropped, any other error is shown.\<close>

definition hook_catch :: "error \<Rightarrow> 'd hook \<Rightarrow> 'd hook" where
  "hook_catch e h =
     (if e = AbortError then h
      else h\<lparr>loading := False, shown_error := Some e, requestCount := requestCount h + 1\<rparr>)"

text \<open>What the hook does with the data the service returned.\<close>

definition hook_continue :: "int \<Rightarrow> waiting \<Rightarrow> 'd \<Rightarrow> 'd hook \<Rightarrow> 'd hook" where
  "hook_continue now w d h =
     (let h1 = h\<lparr>cacheRef := set_cm now (normalizedCity w) d None (cacheRef h)\<rparr>;
          h2 = h1\<lparr>shown := Some d, loading := False, requestCount := requestCount h1 + 1,
                  cacheHitRate := getHitRate (cacheRef h1)\<rparr>
      in updateSearchHistory now (cityName w) d h2)"

text \<open>
  An attempt of a waiting call has settled with \<open>r\<close>: the retry loop returns a
  success and rethrows the failure of the last attempt, through the breaker, to the
  hook; after any other failure the call goes into its backoff wait.
\<close>

definition drop_at :: "nat \<Rightarrow> 'a list \<Rightarrow> 'a list" where
  "drop_at i xs = take i xs @ drop (Suc i) xs"

definition attempt_settled :: "int \<Rightarrow> nat \<Rightarrow> waiting \<Rightarrow> error + 'd \<Rightarrow> 'd hook \<Rightarrow> 'd hook" where
  "attempt_settled now i w r h =
     (let s = service h
      in case r of
           Inr d \<Rightarrow>
             hook_continue now w d
               (h\<lparr>service := s\<lparr>circuitBreaker := onSuccess (circuitBreaker s)\<rparr>,
                  inflight := drop_at i (inflight h)\<rparr>)
         | Inl e \<Rightarrow>
             if attempt w = 3 then
               hook_catch e
                 (h\<lparr>service := s\<lparr>circuitBreaker := onFailure now (circuitBreaker s)\<rparr>,
                    inflight := drop_at i (inflight h)\<rparr>)
             else h\<lparr>inflight := (inflight h)[i := w\<lparr>sleeping := True\<rparr>]\<rparr>)"

text \<open>
  The events: the user interface calls \<open>fetchWeather(city)\<close>; the request in flight
  of the \<open>i\<close>-th waiting call settles with a reply; its timeout fires first; its backoff
  wait ends. Each carries its time. An event for a call that is not waiting, or not in
  that phase, changes nothing.
\<close>

datatype 'd event =
    Resolve int jsstring
  | Settles int nat "'d fetch_reply"
  | TimesOut int nat
  | Wakes int nat

definition waiting_at :: "nat \<Rightarrow> 'd hook \<Rightarrow> waiting option" where
  "waiting_at i h = (if i < length (inflight h) then Some (inflight h ! i) else None)"

definition at_time :: "int \<Rightarrow> 'd hook \<Rightarrow> 'd hook" where
  "at_time now h = h\<lparr>service := (service h)\<lparr>clock := now\<rparr>\<rparr>"

definition resolve ::
  "(jsstring \<Rightarrow> jsstring) \<Rightarrow> int \<Rightarrow> jsstring \<Rightarrow> 'd hook \<Rightarrow> 'd hook" where
  "resolve toLowerCase now city h0 =
     (let h = at_time now h0
      in if city = [] \<or> trim city = []
         then h\<lparr>shown_error := Some (PlainError ''City name is required'')\<rparr>
         else
           let normalized = toLowerCase (trim city);
               name = trim city;
               s1 = (case abortControllerRef h of
                       None \<Rightarrow> service h
                     | Some c \<Rightarrow> (service h)\<lparr>aborted := c # aborted (service h)\<rparr>);
               h1 = h\<lparr>abortControllerRef := Some (controllers s1),
                      service := s1\<lparr>controllers := controllers s1 + 1\<rparr>,
                      loading := True, shown_error := None\<rparr>
           in case get_cm now normalized (cacheRef h1) of
                (Some cached, c) \<Rightarrow>
                  updateSearchHistory now name cached
                    (h1\<lparr>cacheRef := c, shown := Some cached, loading := False,
                        cacheHitRate := getHitRate c\<rparr>)
              | (None, c) \<Rightarrow>
                  let h2 = h1\<lparr>cacheRef := c\<rparr>
                  in case validateCityName name of
                       Inl e \<Rightarrow> hook_catch e h2
                     | Inr u \<Rightarrow>
                         let s2 = new_AbortController (cancelRequests (service h2))
                         in case admit now (circuitBreaker s2) of
                              Inl e \<Rightarrow> hook_catch e (h2\<lparr>service := s2\<rparr>)
                            | Inr b \<Rightarrow>
                                h2\<lparr>service := s2\<lparr>circuitBreaker := b\<rparr>,
                                   inflight := inflight h2 @
                                     [\<lparr>cityName = name, normalizedCity = normalized, attempt = 0,
                                       signal = abortController s2, sleeping = False\<rparr>]\<rparr>)"

fun step :: "(jsstring \<Rightarrow> jsstring) \<Rightarrow> 'd event \<Rightarrow> 'd hook \<Rightarrow> 'd hook" where
  "step toLowerCase (Resolve now city) h = resolve toLowerCase now city h"
| "step toLowerCase (Settles now i rep) h =
     (case waiting_at i h of
        None \<Rightarrow> h
      | Some w \<Rightarrow>
          if sleeping w then h
          else attempt_settled now i w
                 (case signal w of
                    None \<Rightarrow> fetchWeatherData_result rep
                  | Some c \<Rightarrow> if c \<in> set (aborted (service h)) then Inl AbortError
                              else fetchWeatherData_result rep)
                 (at_time now h))"
| "step toLowerCase (TimesOut now i) h =
     (case waiting_at i h of
        None \<Rightarrow> h
      | Some w \<Rightarrow>
          if sleeping w then h
          else attempt_settled now i w
                 (Inl (NetworkError ''Request timeout'' None (Some ''TIMEOUT''))) (at_time now h))"
| "step toLowerCase (Wakes now i) h =
     (case waiting_at i h of
        None \<Rightarrow> h
      | Some w \<Rightarrow>
          if \<not> sleeping w then h
          else (at_time now h)
                 \<lparr>inflight := (inflight h)[i := w\<lparr>attempt := attempt w + 1,
                                                 signal := abortController (service h),
                                                 sleeping := False\<rparr>]\<rparr>)"

definition run_events ::
  "(jsstring \<Rightarrow> jsstring) \<Rightarrow> 'd event list \<Rightarrow> 'd hook \<Rightarrow> 'd hook" where
  "run_events toLowerCase evs h = fold (step toLowerCase) evs h"

text \<open>
  Two runs. In the first the cache holds Lyon when Paris is asked for and, before the
  request for Paris settles, Lyon is asked for again. In the second Paris and then Lyon
  are asked for with an empty cache; the request for Paris is aborted, waits its backoff
  and is sent again.
\<close>

definition ok_reply :: "string \<Rightarrow> string fetch_reply" where
  "ok_reply d = Response 200 (Json None (Weather d))"

definition lyon_cached_then_paris_then_lyon :: "string event list" where
  "lyon_cached_then_paris_then_lyon =
     [Resolve 0 (js ''Lyon''), Settles 200 0 (ok_reply ''weather of Lyon''),
      Resolve 1000 (js ''Paris''),
      Resolve 1100 (js ''Lyon''),
      Settles 1500 0 (ok_reply ''weather of Paris'')]"

definition paris_then_lyon :: "string event list" where
  "paris_then_lyon =
     [Resolve 0 (js ''Paris''),
      Resolve 100 (js ''Lyon''),
      Settles 110 0 (FetchRejects AbortError),
      Settles 300 1 (ok_reply ''weather of Lyon''),
      Wakes 1700 0,
      Settles 1900 0 (ok_reply ''weather of Paris'')]"

section \<open>Properties of the TTL-LRU store\<close>

lemma keys_update: "map fst (AList.update k v al) = (if k \<in> fst ` set al then map fst al else map fst al @ [k])"
  by (simp add: update_keys)

lemma wf_delete: "lru_wf s \<Longrightarrow> lru_wf (snd (delete_lru k s))"
  by (simp add: lru_wf_def delete_lru_def delete_keys distinct_removeAll)

lemma wf_touch:
  assumes "lru_wf s" "map_of (cache s) k = Some e"
  shows "lru_wf (s\<lparr>accessOrder := AList.update k r (accessOrder s), accessCounter := c\<rparr>)"
proof -
  from assms(2) have "k \<in> fst ` set (cache s)" by (metis map_of_eq_None_iff option.distinct(1))
  then have "k \<in> fst ` set (accessOrder s)" using assms(1) by (metis lru_wf_def set_map)
  then show ?thesis using assms(1) by (simp add: lru_wf_def keys_update)
qed

lemma wf_get: "lru_wf s \<Longrightarrow> lru_wf (snd (get_lru now k s))"
  by (auto simp: get_lru_def wf_delete wf_touch split: option.splits)

lemma wf_has: "lru_wf s \<Longrightarrow> lru_wf (snd (has_lru now k s))"
  by (auto simp: has_lru_def wf_delete split: option.splits)

lemma wf_delete_all: "lru_wf s \<Longrightarrow> lru_wf (delete_all ks s)"
  unfolding delete_all_def by (induction ks arbitrary: s) (simp_all add: wf_delete)

lemma wf_evict: "lru_wf s \<Longrightarrow> lru_wf (evictLRU s)"
  by (simp add: evictLRU_def wf_delete split: option.splits)

lemma wf_insert:
  assumes "lru_wf s"
  shows "lru_wf (s\<lparr>cache := AList.update k e (cache s), accessOrder := AList.update k r (accessOrder s), accessCounter := c\<rparr>)"
proof -
  have "fst ` set (accessOrder s) = fst ` set (cache s)" using assms by (metis lru_wf_def set_map)
  then show ?thesis using assms by (auto simp: lru_wf_def keys_update)
qed

lemma wf_set: "lru_wf s \<Longrightarrow> lru_wf (set_lru now k v ttl s)"
  by (simp add: set_lru_def Let_def wf_insert wf_evict)

lemma wf_clear: "lru_wf (clear_lru s)"
  by (simp add: clear_lru_def lru_wf_def)

lemma wf_op: "lru_wf s \<Longrightarrow> lru_wf (apply_lru_op a s)"
  by (cases a) (simp_all add: wf_get wf_set wf_has wf_delete wf_clear keys_lru_def cleanup_lru_def Let_def wf_delete_all)

lemma wf_new: "lru_wf (new_LRUCache m t)"
  by (simp add: new_LRUCache_def lru_wf_def)

lemma wf_run: "lru_wf s \<Longrightarrow> lru_wf (run_lru ops s)"
  unfolding run_lru_def by (induction ops arbitrary: s) (simp_all add: wf_op)

(* sizes *)
lemma size_delete: "size_lru (snd (delete_lru k s)) \<le> size_lru s"
  by (simp add: size_lru_def delete_lru_def length_delete_le)

lemma maxSize_delete: "maxSize (snd (delete_lru k s)) = maxSize s"
  by (simp add: delete_lru_def)

lemma size_delete_all: "size_lru (delete_all ks s) \<le> size_lru s"
  unfolding delete_all_def
proof (induction ks arbitrary: s)
  case Nil then show ?case by simp
next
  case (Cons k ks)
  have "size_lru (fold (\<lambda>k t. snd (delete_lru k t)) ks (snd (delete_lru k s))) \<le> size_lru (snd (delete_lru k s))"
    by (rule Cons.IH)
  then show ?case using size_delete[of k s] by simp
qed

lemma maxSize_delete_all: "maxSize (delete_all ks s) = maxSize s"
  unfolding delete_all_def by (induction ks arbitrary: s) (simp_all add: maxSize_delete)

lemma scan_snoc: "evictLRU_scan (ao @ [e]) = evictLRU_step e (evictLRU_scan ao)"
  by (simp add: evictLRU_scan_def)

lemma scan_min:
  "ao \<noteq> [] \<Longrightarrow> \<exists>k t. evictLRU_scan ao = (Some k, enat t) \<and> (k, t) \<in> set ao \<and> (\<forall>(k', t') \<in> set ao. t \<le> t')"
proof (induction ao rule: rev_induct)
  case Nil then show ?case by simp
next
  case (snoc e ao)
  show ?case
  proof (cases "ao = []")
    case True
    then show ?thesis by (cases e) (simp add: evictLRU_scan_def evictLRU_step_def)
  next
    case False
    with snoc obtain k t where h: "evictLRU_scan ao = (Some k, enat t)" "(k, t) \<in> set ao" "\<forall>(k', t') \<in> set ao. t \<le> t'"
      by blast
    show ?thesis
      using h by (cases e) (auto simp: scan_snoc evictLRU_step_def)
  qed
qed

lemma evict_spec:
  assumes wf: "lru_wf s" and ne: "size_lru s \<noteq> 0"
  shows "\<exists>victim rank. map_of (accessOrder s) victim = Some rank
           \<and> victim \<in> fst ` set (cache s)
           \<and> (\<forall>k' r'. map_of (accessOrder s) k' = Some r' \<longrightarrow> rank \<le> r')
           \<and> evictLRU s = snd (delete_lru victim s)
           \<and> map fst (cache (evictLRU s)) = remove1 victim (map fst (cache s))
           \<and> Suc (size_lru (evictLRU s)) = size_lru s"
proof -
  from wf ne have "accessOrder s \<noteq> []" by (auto simp: lru_wf_def size_lru_def)
  from scan_min[OF this] obtain k t where
    h: "evictLRU_scan (accessOrder s) = (Some k, enat t)" "(k, t) \<in> set (accessOrder s)"
       "\<forall>(k', t') \<in> set (accessOrder s). t \<le> t'" by blast
  have dao: "distinct (map fst (accessOrder s))" using wf by (simp add: lru_wf_def)
  have 1: "map_of (accessOrder s) k = Some t" using dao h(2) by simp
  have "k \<in> fst ` set (accessOrder s)" using h(2) by force
  then have 2: "k \<in> fst ` set (cache s)" using wf by (metis lru_wf_def set_map)
  have 3: "\<forall>k' r'. map_of (accessOrder s) k' = Some r' \<longrightarrow> t \<le> r'"
    using h(3) by (auto dest!: map_of_SomeD)
  have 4: "evictLRU s = snd (delete_lru k s)" using ne h(1) by (simp add: evictLRU_def)
  have dc: "distinct (map fst (cache s))" using wf by (simp add: lru_wf_def)
  have 5: "map fst (cache (evictLRU s)) = remove1 k (map fst (cache s))"
    using dc by (simp add: 4 delete_lru_def delete_keys distinct_remove1_removeAll)
  have "length (remove1 k (map fst (cache s))) = length (map fst (cache s)) - 1"
    using 2 by (simp add: length_remove1)
  moreover have "length (map fst (cache s)) \<noteq> 0" using ne by (simp add: size_lru_def)
  ultimately have 6: "Suc (size_lru (evictLRU s)) = size_lru s"
    using 5 by (metis Suc_pred' length_greater_0_conv length_map list.size(3) size_lru_def)
  show ?thesis using 1 2 3 4 5 6 by blast
qed


lemma absent_iff: "(map_of al k = None) = (k \<notin> fst ` set al)"
  by (simp add: map_of_eq_None_iff)

lemma length_update: "length (AList.update k v al) = (if k \<in> fst ` set al then length al else Suc (length al))"
proof -
  have "length (map fst (AList.update k v al)) = (if k \<in> fst ` set al then length al else Suc (length al))"
    by (simp only: keys_update) simp
  then show ?thesis by simp
qed

lemma maxSize_evict: "maxSize (evictLRU s) = maxSize s"
  by (simp add: evictLRU_def maxSize_delete split: option.splits)

lemma maxSize_set: "maxSize (set_lru now k v ttl s) = maxSize s"
  by (simp add: set_lru_def Let_def maxSize_evict)

lemma set_evicts:
  assumes wf: "lru_wf s" and absent: "map_of (cache s) key = None"
    and full: "int (size_lru s) \<ge> maxSize s" and pos: "1 \<le> maxSize s"
  shows "\<exists>victim rank. map_of (accessOrder s) victim = Some rank
           \<and> victim \<in> fst ` set (cache s)
           \<and> (\<forall>k' r'. map_of (accessOrder s) k' = Some r' \<longrightarrow> rank \<le> r')
           \<and> map fst (cache (set_lru now key v ttl s)) = remove1 victim (map fst (cache s)) @ [key]
           \<and> size_lru (set_lru now key v ttl s) = size_lru s"
proof -
  from full pos have ne: "size_lru s \<noteq> 0" by auto
  from evict_spec[OF wf ne] obtain victim rank where
    h: "map_of (accessOrder s) victim = Some rank" "victim \<in> fst ` set (cache s)"
       "\<forall>k' r'. map_of (accessOrder s) k' = Some r' \<longrightarrow> rank \<le> r'"
       "map fst (cache (evictLRU s)) = remove1 victim (map fst (cache s))"
       "Suc (size_lru (evictLRU s)) = size_lru s" by blast
  have knot: "key \<notin> fst ` set (cache s)" using absent by (simp add: absent_iff)
  have "set (map fst (cache (evictLRU s))) \<subseteq> set (map fst (cache s))"
    unfolding h(4) by (rule set_remove1_subset)
  then have knot1: "key \<notin> fst ` set (cache (evictLRU s))" using knot by auto
  have c: "cache (set_lru now key v ttl s) =
      AList.update key \<lparr>data = v, timestamp = now, expiresAt = now + effective_ttl ttl (defaultTTL s)\<rparr> (cache (evictLRU s))"
    using absent full by (simp add: set_lru_def Let_def)
  have k: "map fst (cache (set_lru now key v ttl s)) = remove1 victim (map fst (cache s)) @ [key]"
    unfolding c using knot1 h(4) by (simp add: keys_update)
  have "size_lru (set_lru now key v ttl s) = Suc (size_lru (evictLRU s))"
    unfolding c size_lru_def using knot1 by (simp add: length_update)
  then have "size_lru (set_lru now key v ttl s) = size_lru s" using h(5) by simp
  then show ?thesis using h(1-3) k by blast
qed

lemma set_keeps:
  assumes "\<not> (map_of (cache s) key = None \<and> int (size_lru s) \<ge> maxSize s)"
  shows "map fst (cache (set_lru now key v ttl s)) =
           (if map_of (cache s) key = None then map fst (cache s) @ [key] else map fst (cache s))"
  using assms by (auto simp: set_lru_def Let_def keys_update absent_iff)

lemma size_set:
  assumes wf: "lru_wf s" and b: "int (size_lru s) \<le> maxSize s" and pos: "1 \<le> maxSize s"
  shows "int (size_lru (set_lru now key v ttl s)) \<le> maxSize s"
proof (cases "map_of (cache s) key = None \<and> int (size_lru s) \<ge> maxSize s")
  case True
  with set_evicts[OF wf _ _ pos, of key now v ttl] b show ?thesis by auto
next
  case False
  have "length (map fst (cache (set_lru now key v ttl s))) =
          (if map_of (cache s) key = None then Suc (size_lru s) else size_lru s)"
    by (simp only: set_keeps[OF False]) (simp add: size_lru_def)
  then show ?thesis using False b by (auto simp: size_lru_def)
qed

lemma inv_op:
  assumes "lru_inv s" "1 \<le> maxSize s"
  shows "lru_inv (apply_lru_op a s) \<and> maxSize (apply_lru_op a s) = maxSize s"
proof -
  have wf: "lru_wf (apply_lru_op a s)" using assms(1) by (simp add: lru_inv_def wf_op)
  have m: "maxSize (apply_lru_op a s) = maxSize s"
    by (cases a) (auto simp: get_lru_def has_lru_def maxSize_delete maxSize_set clear_lru_def
        keys_lru_def cleanup_lru_def Let_def maxSize_delete_all split: option.splits)
  have "size_lru (apply_lru_op a s) \<le> size_lru s \<or> int (size_lru (apply_lru_op a s)) \<le> maxSize s"
  proof (cases a)
    case (OpSet now k v ttl)
    then show ?thesis using size_set[of s now k v ttl] assms by (simp add: lru_inv_def)
  next
    case (OpGet now k)
    then show ?thesis using size_delete[of k s]
      by (auto simp: get_lru_def size_lru_def split: option.splits)
  next
    case (OpHas now k)
    then show ?thesis using size_delete[of k s]
      by (auto simp: has_lru_def split: option.splits)
  next
    case (OpDelete k) then show ?thesis using size_delete[of k s] by simp
  next
    case OpClear then show ?thesis by (simp add: clear_lru_def size_lru_def)
  next
    case (OpKeys now) then show ?thesis by (simp add: keys_lru_def size_delete_all)
  next
    case (OpCleanup now) then show ?thesis by (simp add: cleanup_lru_def Let_def size_delete_all)
  qed
  then have "int (size_lru (apply_lru_op a s)) \<le> maxSize s" using assms(1) by (auto simp: lru_inv_def)
  then show ?thesis using wf m by (simp add: lru_inv_def)
qed

lemma inv_run:
  "lru_inv s \<Longrightarrow> 1 \<le> maxSize s \<Longrightarrow> lru_inv (run_lru ops s) \<and> maxSize (run_lru ops s) = maxSize s"
  unfolding run_lru_def
proof (induction ops arbitrary: s)
  case Nil then show ?case by simp
next
  case (Cons a ops)
  from inv_op[OF Cons.prems] have 1: "lru_inv (apply_lru_op a s)" "maxSize (apply_lru_op a s) = maxSize s" by auto
  from Cons.IH[OF 1(1)] 1(2) Cons.prems(2) show ?case by simp
qed

lemma inv_new: "0 \<le> m \<Longrightarrow> lru_inv (new_LRUCache m t)"
  by (simp add: lru_inv_def wf_new) (simp add: new_LRUCache_def size_lru_def)

subsection \<open>The capacity bound and the choice of the victim\<close>

text \<open>
  For a store built with \<open>maxSize \<ge> 1\<close> and driven by any sequence of calls (\<open>get\<close>,
  \<open>set\<close>, \<open>has\<close>, \<open>delete\<close>, \<open>clear\<close>, \<open>keys\<close>, \<open>cleanup\<close>, at any clock
  readings), the size never exceeds \<open>maxSize\<close>, and the recency map holds exactly the
  keys of the store. A \<open>set\<close> removes a key only when its key is new and the store is at
  capacity; it then removes exactly one key, the victim, whose recency rank is the
  lowest of all entries, and appends the new key. In every other case \<open>set\<close> keeps all
  keys.
\<close>

theorem lru_size_bounded_and_evicts_least_recent:
  assumes pos: "1 \<le> m" and run: "s = run_lru ops (new_LRUCache m t0)"
  shows "int (size_lru s) \<le> m
       \<and> map fst (accessOrder s) = map fst (cache s)
       \<and> (map_of (cache s) key = None \<and> int (size_lru s) \<ge> m \<longrightarrow>
            (\<exists>victim rank. map_of (accessOrder s) victim = Some rank
               \<and> victim \<in> fst ` set (cache s)
               \<and> (\<forall>k' r'. map_of (accessOrder s) k' = Some r' \<longrightarrow> rank \<le> r')
               \<and> map fst (cache (set_lru now key v ttl s)) = remove1 victim (map fst (cache s)) @ [key]))
       \<and> (\<not> (map_of (cache s) key = None \<and> int (size_lru s) \<ge> m) \<longrightarrow>
            set (map fst (cache s)) \<subseteq> set (map fst (cache (set_lru now key v ttl s))))"
proof -
  have m0: "maxSize (new_LRUCache m t0 :: ('a, 'b) LRUCache) = m" by (simp add: new_LRUCache_def)
  have i0: "lru_inv (new_LRUCache m t0 :: ('a, 'b) LRUCache)" using pos by (simp add: inv_new)
  from inv_run[OF i0, of ops] pos m0 run have inv: "lru_inv s" and ms: "maxSize s = m" by auto
  have wf: "lru_wf s" using inv by (simp add: lru_inv_def)
  have A: "int (size_lru s) \<le> m" using inv ms by (simp add: lru_inv_def)
  have B: "map fst (accessOrder s) = map fst (cache s)" using wf by (simp add: lru_wf_def)
  have C: "map_of (cache s) key = None \<and> int (size_lru s) \<ge> m \<longrightarrow>
            (\<exists>victim rank. map_of (accessOrder s) victim = Some rank
               \<and> victim \<in> fst ` set (cache s)
               \<and> (\<forall>k' r'. map_of (accessOrder s) k' = Some r' \<longrightarrow> rank \<le> r')
               \<and> map fst (cache (set_lru now key v ttl s)) = remove1 victim (map fst (cache s)) @ [key])"
  proof
    assume h: "map_of (cache s) key = None \<and> int (size_lru s) \<ge> m"
    then have a: "map_of (cache s) key = None" and f: "int (size_lru s) \<ge> maxSize s"
      and p: "1 \<le> maxSize s" using ms pos by auto
    from set_evicts[OF wf a f p, of now v ttl] show "\<exists>victim rank. map_of (accessOrder s) victim = Some rank
               \<and> victim \<in> fst ` set (cache s)
               \<and> (\<forall>k' r'. map_of (accessOrder s) k' = Some r' \<longrightarrow> rank \<le> r')
               \<and> map fst (cache (set_lru now key v ttl s)) = remove1 victim (map fst (cache s)) @ [key]"
      by blast
  qed
  have D: "\<not> (map_of (cache s) key = None \<and> int (size_lru s) \<ge> m) \<longrightarrow>
            set (map fst (cache s)) \<subseteq> set (map fst (cache (set_lru now key v ttl s)))"
  proof
    assume h: "\<not> (map_of (cache s) key = None \<and> int (size_lru s) \<ge> m)"
    then have "\<not> (map_of (cache s) key = None \<and> int (size_lru s) \<ge> maxSize s)" using ms by simp
    from set_keeps[OF this, of now v ttl]
    show "set (map fst (cache s)) \<subseteq> set (map fst (cache (set_lru now key v ttl s)))" by auto
  qed
  show ?thesis using A B C D by blast
qed

lemma abc_store_eval:
  "abc_store = \<lparr>cache = [(''A'', \<lparr>data = 10, timestamp = 1, expiresAt = 300001\<rparr>),
                          (''B'', \<lparr>data = 20, timestamp = 2, expiresAt = 300002\<rparr>)],
                 accessOrder = [(''A'', 1), (''B'', 2)], accessCounter = 2,
                 maxSize = 2, defaultTTL = 300000\<rparr>"
  by (simp add: abc_store_def run_lru_def set_lru_def new_LRUCache_def size_lru_def Let_def effective_ttl_def)

text \<open>
  The scripted pattern of the specification: \<open>set A\<close>, \<open>set B\<close>, \<open>set C\<close> with
  capacity 2 leaves \<open>B\<close> and \<open>C\<close>: \<open>A\<close> was evicted.
\<close>

theorem lru_size_bounded_and_evicts_least_recent_witness:
  "(1::int) \<le> 2 \<and> int (size_lru abc_store) \<le> 2 \<and> map_of (cache abc_store) ''C'' = None \<and> int (size_lru abc_store) \<ge> 2
    \<and> map fst (cache (set_lru 3 ''C'' 30 None abc_store)) = [''B'', ''C'']"
proof -
  have h: "(1::int) \<le> 2" by simp
  have c: "map fst (cache (set_lru 3 ''C'' 30 None abc_store)) = [''B'', ''C'']"
    by (simp add: abc_store_eval set_lru_def size_lru_def Let_def evictLRU_def evictLRU_scan_def evictLRU_step_def delete_lru_def)
  have a: "map_of (cache abc_store) ''C'' = None" "int (size_lru abc_store) \<ge> 2"
    by (simp_all add: abc_store_eval size_lru_def)
  show ?thesis
    using lru_size_bounded_and_evicts_least_recent[OF h abc_store_def, of "''C''" 3 30 None] h a c
    by blast
qed

text \<open>
  Claim C1 at its failing input. The claim is the bound for every store and every
  sequence of \<open>set\<close> calls. On a store built with \<open>maxSize = 0\<close> a single \<open>set\<close>
  breaks it: \<open>evictLRU\<close> finds nothing to evict in the empty store, \<open>set\<close> inserts
  all the same, and the size is 1.
\<close>

theorem lru_size_exceeds_zero_capacity:
  "\<not> int (size_lru (run_lru [OpSet 1 ''A'' (10::nat) None] (new_LRUCache 0 300000))) \<le> 0"
  by (simp add: run_lru_def set_lru_def new_LRUCache_def size_lru_def Let_def evictLRU_def)

subsection \<open>Expiry and the time-to-live argument\<close>

lemma cache_after_set:
  "map_of (cache (set_lru now key v ttl s)) key =
     Some \<lparr>data = v, timestamp = now, expiresAt = now + effective_ttl ttl (defaultTTL s)\<rparr>"
  by (simp add: set_lru_def Let_def update_conv')

lemma get_expired:
  assumes "map_of (cache s) key = Some e" and "expiresAt e < now"
  shows "get_lru now key s = (None, snd (delete_lru key s))"
  using assms by (simp add: get_lru_def)

lemma has_expired:
  assumes "map_of (cache s) key = Some e" and "expiresAt e < now"
  shows "has_lru now key s = (False, snd (delete_lru key s))"
  using assms by (simp add: has_lru_def)

lemma cache_after_delete: "map_of (cache (snd (delete_lru key s))) key = None"
  by (simp add: delete_lru_def delete_conv')

text \<open>
  Claim C6, as amended. After \<open>set(key, value, ttl)\<close> with a negative \<open>ttl\<close>, on a clock
  that does not run backwards, the entry is expired at every later read: \<open>get\<close> returns
  nothing and removes the entry, and \<open>has\<close> returns false, whether it is asked instead
  of the \<open>get\<close> or, at any time, after it.
\<close>

theorem negative_ttl_expired_on_next_read:
  assumes neg: "ttl < 0" and t1: "now \<le> now1"
  shows "fst (get_lru now1 key (set_lru now key v (Some ttl) s)) = None
       \<and> map_of (cache (snd (get_lru now1 key (set_lru now key v (Some ttl) s)))) key = None
       \<and> fst (has_lru now1 key (set_lru now key v (Some ttl) s)) = False
       \<and> fst (has_lru now2 key (snd (get_lru now1 key (set_lru now key v (Some ttl) s)))) = False"
proof -
  let ?s = "set_lru now key v (Some ttl) s"
  let ?e = "\<lparr>data = v, timestamp = now, expiresAt = now + effective_ttl (Some ttl) (defaultTTL s)\<rparr>"
  have e: "map_of (cache ?s) key = Some ?e" by (rule cache_after_set)
  have x: "expiresAt ?e < now1" using neg t1 by (simp add: effective_ttl_def)
  have g: "get_lru now1 key ?s = (None, snd (delete_lru key ?s))" by (rule get_expired[OF e x])
  have h: "has_lru now1 key ?s = (False, snd (delete_lru key ?s))" by (rule has_expired[OF e x])
  have d: "map_of (cache (snd (delete_lru key ?s))) key = None" by (rule cache_after_delete)
  have h2: "fst (has_lru now2 key (snd (delete_lru key ?s))) = False"
    using d by (simp add: has_lru_def)
  show ?thesis using g h d h2 by simp
qed

theorem negative_ttl_expired_on_next_read_witness:
  "(-1::int) < 0 \<and> (1000::int) \<le> 1000
   \<and> fst (get_lru 1000 ''k'' (set_lru 1000 ''k'' (7::nat) (Some (-1)) (new_LRUCache 50 300000))) = None
   \<and> fst (has_lru 1000 ''k'' (set_lru 1000 ''k'' (7::nat) (Some (-1)) (new_LRUCache 50 300000))) = False"
proof -
  have a: "(-1::int) < 0" and b: "(1000::int) \<le> 1000" by simp_all
  show ?thesis
    using negative_ttl_expired_on_next_read[OF a b, of "''k''" "7::nat" "new_LRUCache 50 300000"] a b
    by blast
qed

text \<open>
  A \<open>ttl\<close> of \<open>0\<close> is falsy, so \<open>set\<close> takes the default time-to-live: the entry is
  still served five minutes less one millisecond later.
\<close>

theorem zero_ttl_takes_default:
  "fst (get_lru 300999 ''k'' (set_lru 1000 ''k'' (7::nat) (Some 0) (new_LRUCache 50 300000))) = Some 7
   \<and> fst (has_lru 300999 ''k'' (set_lru 1000 ''k'' (7::nat) (Some 0) (new_LRUCache 50 300000))) = True"
  by (simp add: get_lru_def has_lru_def set_lru_def new_LRUCache_def size_lru_def Let_def
      effective_ttl_def)

subsection \<open>Capacity zero\<close>

text \<open>
  Claim C7 at its failing input: a store built with \<open>maxSize = 0\<close> keeps what \<open>set\<close>
  gives it. After \<open>set(k, 7)\<close> its size is 1 and \<open>get(k)\<close> returns 7.
\<close>

theorem zero_capacity_set_inserts:
  "size_lru (set_lru 1000 ''k'' (7::nat) None (new_LRUCache 0 300000)) = 1
   \<and> fst (get_lru 1001 ''k'' (set_lru 1000 ''k'' (7::nat) None (new_LRUCache 0 300000))) = Some 7"
  by (simp add: get_lru_def set_lru_def new_LRUCache_def size_lru_def Let_def
      effective_ttl_def evictLRU_def)

section \<open>Properties of the cache manager\<close>

lemma step_counts:
  assumes "hitCount m = hits acc" and "missCount m = misses acc"
  shows "hitCount (apply_cm_op a m) = hits (observe a m acc)
       \<and> missCount (apply_cm_op a m) = misses (observe a m acc)"
  using assms
  by (cases a)
    (auto simp: get_cm_def set_cm_def has_cm_def delete_cm_def clear_cm_def destroy_cm_def
      hits_def misses_def split: prod.splits)

lemma run_counts:
  "hitCount m = hits acc \<Longrightarrow> missCount m = misses acc \<Longrightarrow>
   hitCount (run_cm ops m) = hits (lookups ops m acc)
   \<and> missCount (run_cm ops m) = misses (lookups ops m acc)"
proof (induction ops arbitrary: m acc)
  case Nil
  then show ?case by (simp add: run_cm_def)
next
  case (Cons a ops)
  from step_counts[OF Cons.prems, of a]
  have "hitCount (apply_cm_op a m) = hits (observe a m acc)"
    and "missCount (apply_cm_op a m) = misses (observe a m acc)" by simp_all
  from Cons.IH[OF this] show ?case by (simp add: run_cm_def)
qed

lemma three_hits_one_miss_lookups:
  "lookups three_hits_one_miss (new_CacheManager 50 300000) [] = [Some 1, Some 1, None, Some 1]"
  by (simp add: three_hits_one_miss_def new_CacheManager_def new_LRUCache_def set_cm_def
      get_cm_def set_lru_def get_lru_def size_lru_def Let_def effective_ttl_def)

text \<open>
  Claim C9. After any sequence of calls on a new manager, \<open>hitCount\<close> and \<open>missCount\<close>
  are the numbers of \<open>get\<close> lookups since the last \<open>clear\<close> that returned a value and
  that returned nothing; \<open>getHitRate()\<close> is their quotient \<open>hits / (hits + misses)\<close>, or
  \<open>0\<close> without lookups; \<open>getStats().hitRate\<close> is the same number (it overrides the
  store's placeholder); and with 3 hits and 1 miss both are \<open>3/4\<close>. The quotient is taken
  in the rationals: JavaScript rounds it to the nearest double, and \<open>3/4\<close> is a double.
\<close>

theorem hit_rate_is_hits_over_lookups:
  assumes m: "m = run_cm ops (new_CacheManager maxSize0 ttl0)"
    and rs: "rs = lookups ops (new_CacheManager maxSize0 ttl0) []"
  shows "hitCount m = hits rs \<and> missCount m = misses rs
       \<and> getHitRate m = (if hits rs + misses rs = 0 then 0
                          else of_nat (hits rs) / of_nat (hits rs + misses rs))
       \<and> stats_hitRate (getStats_cm now m) = getHitRate m
       \<and> (hits rs = 3 \<and> misses rs = 1 \<longrightarrow>
            getHitRate m = 3 / 4 \<and> stats_hitRate (getStats_cm now m) = 3 / 4)"
proof -
  let ?m0 = "new_CacheManager maxSize0 ttl0 :: ('a, 'b) CacheManager"
  have "hitCount ?m0 = hits []" "missCount ?m0 = misses []"
    by (simp_all add: new_CacheManager_def hits_def misses_def)
  from run_counts[OF this, of ops] m rs
  have h: "hitCount m = hits rs" and ms: "missCount m = misses rs" by simp_all
  have r: "getHitRate m = (if hits rs + misses rs = 0 then 0
                          else of_nat (hits rs) / of_nat (hits rs + misses rs))"
    by (simp add: getHitRate_def Let_def h ms)
  have s: "stats_hitRate (getStats_cm now m) = getHitRate m"
    by (simp add: getStats_cm_def Let_def)
  have q: "hits rs = 3 \<and> misses rs = 1 \<longrightarrow>
            getHitRate m = 3 / 4 \<and> stats_hitRate (getStats_cm now m) = 3 / 4"
    by (simp add: s r)
  show ?thesis using h ms r s q by blast
qed

theorem hit_rate_is_hits_over_lookups_witness:
  "hits (lookups three_hits_one_miss (new_CacheManager 50 300000) []) = 3
   \<and> misses (lookups three_hits_one_miss (new_CacheManager 50 300000) []) = 1
   \<and> getHitRate (run_cm three_hits_one_miss (new_CacheManager 50 300000)) = 3 / 4
   \<and> stats_hitRate (getStats_cm 5 (run_cm three_hits_one_miss (new_CacheManager 50 300000))) = 3 / 4"
proof -
  have a: "hits (lookups three_hits_one_miss (new_CacheManager 50 300000) []) = 3"
    and b: "misses (lookups three_hits_one_miss (new_CacheManager 50 300000) []) = 1"
    by (simp_all add: three_hits_one_miss_lookups hits_def misses_def)
  show ?thesis
    using hit_rate_is_hits_over_lookups[OF refl refl, of three_hits_one_miss 50 300000 5] a b
    by blast
qed

section \<open>Properties of the service\<close>

lemma scripted_apply:
  "scripted script \<sigma> =
     (snd (script (invocations \<sigma>)),
      \<sigma>\<lparr>invocations := invocations \<sigma> + 1, clock := clock \<sigma> + max 0 (fst (script (invocations \<sigma>)))\<rparr>)"
  by (simp add: scripted_def split: prod.splits)

lemma scripted_fst: "fst (scripted script \<sigma>) = snd (script (invocations \<sigma>))"
  by (simp add: scripted_apply)

lemma scripted_snd:
  "invocations (snd (scripted script \<sigma>)) = invocations \<sigma> + 1"
  "circuitBreaker (snd (scripted script \<sigma>)) = circuitBreaker \<sigma>"
  "randoms (snd (scripted script \<sigma>)) = randoms \<sigma>"
  "clock (snd (scripted script \<sigma>)) = clock \<sigma> + max 0 (fst (script (invocations \<sigma>)))"
  "abortController (snd (scripted script \<sigma>)) = abortController \<sigma>"
  "controllers (snd (scripted script \<sigma>)) = controllers \<sigma>"
  "aborted (snd (scripted script \<sigma>)) = aborted \<sigma>"
  by (simp_all add: scripted_apply)

lemma withTimeout_scripted: "withTimeout (scripted script) t = scripted (timed script t)"
proof
  fix \<sigma> :: sys
  obtain latency r where s: "script (invocations \<sigma>) = (latency, r)" by (cases "script (invocations \<sigma>)")
  show "withTimeout (scripted script) t \<sigma> = scripted (timed script t) \<sigma>"
    by (simp add: withTimeout_def scripted_def timed_def s timeout_error_def)
qed

lemma backoff_fields:
  "invocations (backoff rnd bd a \<sigma>) = invocations \<sigma>"
  "circuitBreaker (backoff rnd bd a \<sigma>) = circuitBreaker \<sigma>"
  "randoms (backoff rnd bd a \<sigma>) = randoms \<sigma> + 1"
  "clock \<sigma> \<le> clock (backoff rnd bd a \<sigma>)"
  "abortController (backoff rnd bd a \<sigma>) = abortController \<sigma>"
  "controllers (backoff rnd bd a \<sigma>) = controllers \<sigma>"
  "aborted (backoff rnd bd a \<sigma>) = aborted \<sigma>"
  by (simp_all add: backoff_def sleep_def random1000_def)

lemma retry_step_fail:
  assumes "snd (script (invocations \<sigma>)) = Inl e" "int a < mr"
  shows "retry_from rnd (scripted script) mr bd a \<sigma> =
           retry_from rnd (scripted script) mr bd (a + 1) (backoff rnd bd a (snd (scripted script \<sigma>)))"
proof -
  have f: "scripted script \<sigma> = (Inl e, snd (scripted script \<sigma>))"
    using assms(1) by (simp add: scripted_apply)
  show ?thesis
    apply (subst retry_from.simps)
    apply (subst f)
    using assms(2) apply (simp add: backoff_def split: prod.splits)
    done
qed

lemma retry_step_last:
  assumes "snd (script (invocations \<sigma>)) = Inl e" "int a = mr"
  shows "retry_from rnd (scripted script) mr bd a \<sigma> = (Inl e, snd (scripted script \<sigma>))"
proof -
  have f: "scripted script \<sigma> = (Inl e, snd (scripted script \<sigma>))"
    using assms(1) by (simp add: scripted_apply)
  show ?thesis
    apply (subst retry_from.simps)
    apply (subst f)
    using assms(2) apply simp
    done
qed

lemma retry_step_ok:
  assumes "snd (script (invocations \<sigma>)) = Inr v" "int a \<le> mr"
  shows "retry_from rnd (scripted script) mr bd a \<sigma> = (Inr v, snd (scripted script \<sigma>))"
proof -
  have f: "scripted script \<sigma> = (Inr v, snd (scripted script \<sigma>))"
    using assms(1) by (simp add: scripted_apply)
  show ?thesis
    apply (subst retry_from.simps)
    apply (subst f)
    using assms(2) apply simp
    done
qed

lemma retry_step_none:
  assumes "\<not> int a \<le> mr"
  shows "retry_from rnd fn mr bd a \<sigma> = (Inl (PlainError ''Max retries exceeded''), \<sigma>)"
  using assms by (subst retry_from.simps) simp

lemma retry_succeeds_at:
  assumes "\<forall>i<j. isl (snd (script (invocations \<sigma> + i)))"
    and "snd (script (invocations \<sigma> + j)) = Inr v"
    and "int (a + j) \<le> mr"
  shows "\<exists>\<sigma>'. retry_from rnd (scripted script) mr bd a \<sigma> = (Inr v, \<sigma>')
            \<and> invocations \<sigma>' = invocations \<sigma> + j + 1
            \<and> circuitBreaker \<sigma>' = circuitBreaker \<sigma>"
  using assms
proof (induction j arbitrary: a \<sigma>)
  case 0
  then have v: "snd (script (invocations \<sigma>)) = Inr v" and le: "int a \<le> mr" by simp_all
  show ?case unfolding retry_step_ok[where script=script, OF v le] by (simp add: scripted_snd)
next
  case (Suc j)
  from Suc.prems(1) have "isl (snd (script (invocations \<sigma>)))" by (metis add.right_neutral zero_less_Suc)
  then obtain e where e: "snd (script (invocations \<sigma>)) = Inl e" by (auto simp: isl_def)
  have lt: "int a < mr" using Suc.prems(3) by simp
  define \<sigma>1 where "\<sigma>1 = backoff rnd bd a (snd (scripted script \<sigma>))"
  have s1: "retry_from rnd (scripted script) mr bd a \<sigma> = retry_from rnd (scripted script) mr bd (a + 1) \<sigma>1"
        "invocations \<sigma>1 = invocations \<sigma> + 1" "circuitBreaker \<sigma>1 = circuitBreaker \<sigma>"
    unfolding \<sigma>1_def using retry_step_fail[where script=script, OF e lt]
    by (simp_all add: backoff_fields scripted_snd)
  have p1: "\<forall>i<j. isl (snd (script (invocations \<sigma>1 + i)))"
  proof (intro allI impI)
    fix i assume "i < j"
    then have "Suc i < Suc j" by simp
    with Suc.prems(1) have "isl (snd (script (invocations \<sigma> + Suc i)))" by blast
    then show "isl (snd (script (invocations \<sigma>1 + i)))" by (simp add: s1(2))
  qed
  have p2: "snd (script (invocations \<sigma>1 + j)) = Inr v" using Suc.prems(2) by (simp add: s1(2))
  have p3: "int (a + 1 + j) \<le> mr" using Suc.prems(3) by simp
  from Suc.IH[OF p1 p2 p3] show ?case by (simp add: s1)
qed

lemma retry_all_fail:
  assumes "n = nat (mr - int a)" and "int a \<le> mr"
    and "\<forall>i\<le>n. isl (snd (script (invocations \<sigma> + i)))"
  shows "\<exists>\<sigma>'. retry_from rnd (scripted script) mr bd a \<sigma> = (snd (script (invocations \<sigma> + n)), \<sigma>')
            \<and> invocations \<sigma>' = invocations \<sigma> + n + 1
            \<and> circuitBreaker \<sigma>' = circuitBreaker \<sigma>
            \<and> randoms \<sigma>' = randoms \<sigma> + n"
  using assms
proof (induction n arbitrary: a \<sigma>)
  case 0
  then have eq: "int a = mr" by simp
  from 0(3) obtain e where e: "snd (script (invocations \<sigma>)) = Inl e" by (auto simp: isl_def)
  show ?case unfolding retry_step_last[where script=script, OF e eq] using 0(1) by (simp add: scripted_snd e)
next
  case (Suc n)
  from Suc.prems(3) have "isl (snd (script (invocations \<sigma> + 0)))" by blast
  then obtain e where e: "snd (script (invocations \<sigma>)) = Inl e" by (auto simp: isl_def)
  have lt: "int a < mr" using Suc.prems(1) by linarith
  define \<sigma>1 where "\<sigma>1 = backoff rnd bd a (snd (scripted script \<sigma>))"
  have s1: "retry_from rnd (scripted script) mr bd a \<sigma> = retry_from rnd (scripted script) mr bd (a + 1) \<sigma>1"
        "invocations \<sigma>1 = invocations \<sigma> + 1" "circuitBreaker \<sigma>1 = circuitBreaker \<sigma>"
        "randoms \<sigma>1 = randoms \<sigma> + 1"
    unfolding \<sigma>1_def using retry_step_fail[where script=script, OF e lt]
    by (simp_all add: backoff_fields scripted_snd)
  have p1: "n = nat (mr - int (a + 1))" using Suc.prems(1) by linarith
  have p2: "int (a + 1) \<le> mr" using lt by simp
  have p3: "\<forall>i\<le>n. isl (snd (script (invocations \<sigma>1 + i)))"
  proof (intro allI impI)
    fix i assume "i \<le> n"
    then have "Suc i \<le> Suc n" by simp
    with Suc.prems(3) have "isl (snd (script (invocations \<sigma> + Suc i)))" by blast
    then show "isl (snd (script (invocations \<sigma>1 + i)))" by (simp add: s1(2))
  qed
  from Suc.IH[OF p1 p2 p3] show ?case by (simp add: s1)
qed

lemma retry_invocations_bounds:
  "invocations \<sigma> \<le> invocations (snd (retry_from rnd (scripted script) mr bd a \<sigma>))
   \<and> int (invocations (snd (retry_from rnd (scripted script) mr bd a \<sigma>)))
       \<le> int (invocations \<sigma>) + max 0 (mr + 1 - int a)"
proof (induction "nat (mr + 1 - int a)" arbitrary: a \<sigma>)
  case 0
  then have "\<not> int a \<le> mr" by linarith
  then show ?case by (simp add: retry_step_none)
next
  case (Suc n)
  then have le: "int a \<le> mr" by linarith
  show ?case
  proof (cases "snd (script (invocations \<sigma>))")
    case (Inr v)
    show ?thesis unfolding retry_step_ok[where script=script, OF Inr le] using le by (simp add: scripted_snd)
  next
    case (Inl e)
    show ?thesis
    proof (cases "int a = mr")
      case True
      show ?thesis unfolding retry_step_last[where script=script, OF Inl True] by (simp add: scripted_snd True)
    next
      case False
      then have lt: "int a < mr" using le by simp
      define \<sigma>1 where "\<sigma>1 = backoff rnd bd a (snd (scripted script \<sigma>))"
      have s1: "retry_from rnd (scripted script) mr bd a \<sigma> = retry_from rnd (scripted script) mr bd (a + 1) \<sigma>1"
        "invocations \<sigma>1 = invocations \<sigma> + 1"
        unfolding \<sigma>1_def using retry_step_fail[where script=script, OF Inl lt]
        by (simp_all add: backoff_fields scripted_snd)
      have "n = nat (mr + 1 - int (a + 1))" using Suc(2) by linarith
      from Suc(1)[OF this, of \<sigma>1] show ?thesis using lt by (simp add: s1)
    qed
  qed
qed

lemmas eval_defs = fetchWeather_def validateCityName_def js_def city_char_def is_ascii_letter_def
  is_whitespace_def call_def admit_def retryWithBackoff_def withTimeout_def fetchWeatherData_def
  scripted_def fetch_script_def fetchWeatherData_result_def REQUEST_TIMEOUT_def cancelRequests_def
  new_AbortController_def new_sys_def always_def new_CircuitBreaker_def onSuccess_def onFailure_def
  sleep_def random1000_def Let_def errorData_message_def spec_fetchWeather_def

subsection \<open>The circuit breaker\<close>

text \<open>
  Claim C2. With the breaker open: while \<open>now - lastFailureTime \<le> recoveryTimeout\<close>, a
  call of any operation returns the error \<open>Circuit breaker is OPEN\<close> and leaves the whole
  state as it was, so the operation was not invoked; once
  \<open>now - lastFailureTime > recoveryTimeout\<close>, the call moves the breaker to half-open and
  goes on as a call from that state: the downstream operation is invoked once and its
  settlement is the call's.
\<close>

theorem open_breaker_fails_fast_then_half_open:
  assumes "state (circuitBreaker \<sigma>) = OPEN"
  shows "(clock \<sigma> - lastFailureTime (circuitBreaker \<sigma>) \<le> recoveryTimeout (circuitBreaker \<sigma>) \<longrightarrow>
            call fn \<sigma> = (Inl (NetworkError ''Circuit breaker is OPEN'' None None), \<sigma>))
       \<and> (clock \<sigma> - lastFailureTime (circuitBreaker \<sigma>) > recoveryTimeout (circuitBreaker \<sigma>) \<longrightarrow>
            admit (clock \<sigma>) (circuitBreaker \<sigma>) = Inr ((circuitBreaker \<sigma>)\<lparr>state := HALF_OPEN\<rparr>)
            \<and> call fn \<sigma> = call fn (\<sigma>\<lparr>circuitBreaker := (circuitBreaker \<sigma>)\<lparr>state := HALF_OPEN\<rparr>\<rparr>)
            \<and> fst (call (scripted script) \<sigma>) = snd (script (invocations \<sigma>))
            \<and> invocations (snd (call (scripted script) \<sigma>)) = invocations \<sigma> + 1)"
proof -
  let ?b = "circuitBreaker \<sigma>"
  have A: "clock \<sigma> - lastFailureTime ?b \<le> recoveryTimeout ?b \<longrightarrow>
            call fn \<sigma> = (Inl (NetworkError ''Circuit breaker is OPEN'' None None), \<sigma>)"
    using assms by (simp add: call_def admit_def)
  have B: "clock \<sigma> - lastFailureTime ?b > recoveryTimeout ?b \<longrightarrow>
            admit (clock \<sigma>) ?b = Inr (?b\<lparr>state := HALF_OPEN\<rparr>)"
    using assms by (simp add: admit_def)
  have C: "clock \<sigma> - lastFailureTime ?b > recoveryTimeout ?b \<longrightarrow>
            call fn \<sigma> = call fn (\<sigma>\<lparr>circuitBreaker := ?b\<lparr>state := HALF_OPEN\<rparr>\<rparr>)"
    using assms by (simp add: call_def admit_def)
  have D: "clock \<sigma> - lastFailureTime ?b > recoveryTimeout ?b \<longrightarrow>
            fst (call (scripted script) \<sigma>) = snd (script (invocations \<sigma>))
            \<and> invocations (snd (call (scripted script) \<sigma>)) = invocations \<sigma> + 1"
    using assms by (cases "snd (script (invocations \<sigma>))") (simp_all add: call_def admit_def scripted_apply)
  show ?thesis using A B C D by blast
qed

theorem open_breaker_fails_fast_then_half_open_witness:
  "state (circuitBreaker (open_sys 2000)) = OPEN
   \<and> call (scripted (flaky 0)) (open_sys 2000)
       = (Inl (NetworkError ''Circuit breaker is OPEN'' None None), open_sys 2000)
   \<and> state (circuitBreaker (open_sys 70000)) = OPEN
   \<and> fst (call (scripted (flaky 0)) (open_sys 70000)) = Inr 7
   \<and> invocations (snd (call (scripted (flaky 0)) (open_sys 70000))) = 1"
proof -
  have a: "state (circuitBreaker (open_sys 2000)) = OPEN"
    and b: "state (circuitBreaker (open_sys 70000)) = OPEN"
    by (simp_all add: open_sys_def new_sys_def)
  have c: "clock (open_sys 2000) - lastFailureTime (circuitBreaker (open_sys 2000))
             \<le> recoveryTimeout (circuitBreaker (open_sys 2000))"
    and d: "clock (open_sys 70000) - lastFailureTime (circuitBreaker (open_sys 70000))
             > recoveryTimeout (circuitBreaker (open_sys 70000))"
    by (simp_all add: open_sys_def new_sys_def)
  have e: "snd (flaky 0 (invocations (open_sys 70000))) = Inr 7"
    and f: "invocations (open_sys 70000) + 1 = 1"
    by (simp_all add: flaky_def open_sys_def new_sys_def)
  from open_breaker_fails_fast_then_half_open[OF a, of "scripted (flaky 0)" "flaky 0"] c
  have 1: "call (scripted (flaky 0)) (open_sys 2000)
       = (Inl (NetworkError ''Circuit breaker is OPEN'' None None), open_sys 2000)"
    by blast
  from open_breaker_fails_fast_then_half_open[OF b, of "scripted (flaky 0)" "flaky 0"] d
  have 2: "fst (call (scripted (flaky 0)) (open_sys 70000)) = snd (flaky 0 (invocations (open_sys 70000)))
            \<and> invocations (snd (call (scripted (flaky 0)) (open_sys 70000))) = invocations (open_sys 70000) + 1"
    by blast
  show ?thesis using 1 2 a b e f by simp
qed

subsection \<open>The retry executor\<close>

text \<open>
  Claim C3. For \<open>maxRetries \<ge> 0\<close> and any scripted operation, \<open>retryWithBackoff\<close>
  invokes the operation at most \<open>maxRetries + 1\<close> times; when the first success is at
  attempt \<open>k \<le> maxRetries + 1\<close> it returns that success after exactly \<open>k\<close> invocations;
  when all \<open>maxRetries + 1\<close> attempts fail it has made exactly \<open>maxRetries + 1\<close>
  invocations and rejects with the failure of the last one, as it is.
\<close>

theorem retry_attempts_bounded_and_last_failure_raised:
  assumes "0 \<le> maxRetries"
    and "r = fst (retryWithBackoff rnd (scripted script) maxRetries baseDelay \<sigma>)"
    and "\<sigma>' = snd (retryWithBackoff rnd (scripted script) maxRetries baseDelay \<sigma>)"
  shows "invocations \<sigma>' \<le> invocations \<sigma> + nat maxRetries + 1
       \<and> (\<forall>k v. 1 \<le> k \<and> k \<le> nat maxRetries + 1
              \<and> (\<forall>i<k - 1. isl (snd (script (invocations \<sigma> + i))))
              \<and> snd (script (invocations \<sigma> + (k - 1))) = Inr v
            \<longrightarrow> r = Inr v \<and> invocations \<sigma>' = invocations \<sigma> + k)
       \<and> ((\<forall>i\<le>nat maxRetries. isl (snd (script (invocations \<sigma> + i))))
            \<longrightarrow> r = snd (script (invocations \<sigma> + nat maxRetries))
              \<and> invocations \<sigma>' = invocations \<sigma> + nat maxRetries + 1)"
proof -
  have "int (invocations \<sigma>') \<le> int (invocations \<sigma>) + max 0 (maxRetries + 1 - int 0)"
    using retry_invocations_bounds[of \<sigma> rnd script maxRetries baseDelay 0] assms(3)
    by (simp only: retryWithBackoff_def)
  then have A: "invocations \<sigma>' \<le> invocations \<sigma> + nat maxRetries + 1"
    using assms(1) by simp
  have B: "\<forall>k v. 1 \<le> k \<and> k \<le> nat maxRetries + 1
              \<and> (\<forall>i<k - 1. isl (snd (script (invocations \<sigma> + i))))
              \<and> snd (script (invocations \<sigma> + (k - 1))) = Inr v
            \<longrightarrow> r = Inr v \<and> invocations \<sigma>' = invocations \<sigma> + k"
  proof (intro allI impI)
    fix k v
    assume h: "1 \<le> k \<and> k \<le> nat maxRetries + 1
              \<and> (\<forall>i<k - 1. isl (snd (script (invocations \<sigma> + i))))
              \<and> snd (script (invocations \<sigma> + (k - 1))) = Inr v"
    then have 1: "\<forall>i<k - 1. isl (snd (script (invocations \<sigma> + i)))"
      and 2: "snd (script (invocations \<sigma> + (k - 1))) = Inr v"
      and 3: "int (0 + (k - 1)) \<le> maxRetries" using assms(1) by auto
    from retry_succeeds_at[where script=script, OF 1 2 3, of rnd baseDelay] h
    show "r = Inr v \<and> invocations \<sigma>' = invocations \<sigma> + k"
      using assms(2,3) by (auto simp: retryWithBackoff_def)
  qed
  have C: "(\<forall>i\<le>nat maxRetries. isl (snd (script (invocations \<sigma> + i))))
            \<longrightarrow> r = snd (script (invocations \<sigma> + nat maxRetries))
              \<and> invocations \<sigma>' = invocations \<sigma> + nat maxRetries + 1"
  proof
    assume h: "\<forall>i\<le>nat maxRetries. isl (snd (script (invocations \<sigma> + i)))"
    have 1: "nat maxRetries = nat (maxRetries - int 0)" by simp
    have 2: "int 0 \<le> maxRetries" using assms(1) by simp
    from retry_all_fail[where script=script, OF 1 2 h, of rnd baseDelay]
    show "r = snd (script (invocations \<sigma> + nat maxRetries))
              \<and> invocations \<sigma>' = invocations \<sigma> + nat maxRetries + 1"
      using assms(2,3) by (auto simp: retryWithBackoff_def)
  qed
  show ?thesis using A B C by blast
qed

theorem retry_attempts_bounded_and_last_failure_raised_witness:
  "(0::int) \<le> 3
   \<and> fst (retryWithBackoff (\<lambda>i. 500) (scripted (flaky 3)) 3 1000 (new_sys 0)) = Inr 7
   \<and> invocations (snd (retryWithBackoff (\<lambda>i. 500) (scripted (flaky 3)) 3 1000 (new_sys 0))) = 4
   \<and> fst (retryWithBackoff (\<lambda>i. 500) (scripted (flaky 9)) 3 1000 (new_sys 0))
       = Inl (NetworkError ''down'' None None)
   \<and> invocations (snd (retryWithBackoff (\<lambda>i. 500) (scripted (flaky 9)) 3 1000 (new_sys 0))) = 4"
proof -
  have z: "(0::int) \<le> 3" by simp
  have i0: "invocations (new_sys 0) = 0" by (simp add: new_sys_def)
  have a: "(1::nat) \<le> 4 \<and> (4::nat) \<le> nat 3 + 1
           \<and> (\<forall>i<4 - 1. isl (snd (flaky 3 (invocations (new_sys 0) + i))))
           \<and> snd (flaky 3 (invocations (new_sys 0) + (4 - 1))) = Inr 7"
    by (simp add: flaky_def i0)
  have b: "\<forall>i\<le>nat 3. isl (snd (flaky 9 (invocations (new_sys 0) + i)))"
    by (simp add: flaky_def i0)
  have c: "snd (flaky 9 (invocations (new_sys 0) + nat 3)) = Inl (NetworkError ''down'' None None)"
    by (simp add: flaky_def i0)
  from retry_attempts_bounded_and_last_failure_raised[OF z refl refl, of "\<lambda>i. 500" "flaky 3" 1000 "new_sys 0"] a
  have s: "fst (retryWithBackoff (\<lambda>i. 500) (scripted (flaky 3)) 3 1000 (new_sys 0)) = Inr 7
     \<and> invocations (snd (retryWithBackoff (\<lambda>i. 500) (scripted (flaky 3)) 3 1000 (new_sys 0))) = invocations (new_sys 0) + 4"
    by blast
  from retry_attempts_bounded_and_last_failure_raised[OF z refl refl, of "\<lambda>i. 500" "flaky 9" 1000 "new_sys 0"] b
  have f: "fst (retryWithBackoff (\<lambda>i. 500) (scripted (flaky 9)) 3 1000 (new_sys 0)) = snd (flaky 9 (invocations (new_sys 0) + nat 3))
     \<and> invocations (snd (retryWithBackoff (\<lambda>i. 500) (scripted (flaky 9)) 3 1000 (new_sys 0))) = invocations (new_sys 0) + nat 3 + 1"
    by blast
  show ?thesis using z s f c i0 by simp
qed

subsection \<open>The composition of breaker, retry and timeout\<close>

lemma prepared_fields:
  "clock (new_AbortController (cancelRequests \<sigma>)) = clock \<sigma>"
  "invocations (new_AbortController (cancelRequests \<sigma>)) = invocations \<sigma>"
  "randoms (new_AbortController (cancelRequests \<sigma>)) = randoms \<sigma>"
  "circuitBreaker (new_AbortController (cancelRequests \<sigma>)) = circuitBreaker \<sigma>"
  by (simp_all add: new_AbortController_def cancelRequests_def split: option.splits)

lemma fail_fast_prepared: "fail_fast_now (new_AbortController (cancelRequests \<sigma>)) = fail_fast_now \<sigma>"
  by (simp add: fail_fast_now_def prepared_fields)

lemma fetchWeather_valid:
  assumes "validateCityName city = Inr ()"
  shows "fetchWeather net city \<sigma> =
           call (retry_from (random net) (scripted (attempt_script net city)) 3 1000 0)
             (new_AbortController (cancelRequests \<sigma>))"
  using assms
  by (simp add: fetchWeather_def retryWithBackoff_def fetchWeatherData_def withTimeout_scripted
      attempt_script_def)

lemma call_fail_fast:
  assumes "fail_fast_now \<sigma>"
  shows "call fn \<sigma> = (Inl (NetworkError ''Circuit breaker is OPEN'' None None), \<sigma>)"
  using assms by (simp add: call_def admit_def fail_fast_now_def)

lemma admit_passes:
  assumes "\<not> fail_fast_now \<sigma>"
  shows "\<exists>b. admit (clock \<sigma>) (circuitBreaker \<sigma>) = Inr b
            \<and> failureCount b = failureCount (circuitBreaker \<sigma>)"
  using assms by (auto simp: admit_def fail_fast_now_def)

lemma call_failure:
  assumes "\<not> fail_fast_now \<sigma>"
    and "\<And>\<tau>. invocations \<tau> = invocations \<sigma> \<Longrightarrow> randoms \<tau> = randoms \<sigma> \<Longrightarrow>
           \<exists>\<tau>'. fn \<tau> = (Inl e, \<tau>') \<and> invocations \<tau>' = invocations \<sigma> + n
                 \<and> randoms \<tau>' = randoms \<sigma> + m \<and> circuitBreaker \<tau>' = circuitBreaker \<tau>"
  shows "fst (call fn \<sigma>) = Inl e \<and> invocations (snd (call fn \<sigma>)) = invocations \<sigma> + n
         \<and> randoms (snd (call fn \<sigma>)) = randoms \<sigma> + m
         \<and> failureCount (circuitBreaker (snd (call fn \<sigma>))) = failureCount (circuitBreaker \<sigma>) + 1"
proof -
  from admit_passes[OF assms(1)] obtain b where
    b: "admit (clock \<sigma>) (circuitBreaker \<sigma>) = Inr b" "failureCount b = failureCount (circuitBreaker \<sigma>)"
    by blast
  from assms(2)[of "\<sigma>\<lparr>circuitBreaker := b\<rparr>"] obtain \<tau>' where
    t: "fn (\<sigma>\<lparr>circuitBreaker := b\<rparr>) = (Inl e, \<tau>')" "invocations \<tau>' = invocations \<sigma> + n"
       "randoms \<tau>' = randoms \<sigma> + m" "circuitBreaker \<tau>' = b" by auto
  show ?thesis by (simp add: call_def b t onFailure_def Let_def)
qed

lemma call_success:
  assumes "\<not> fail_fast_now \<sigma>"
    and "\<And>\<tau>. invocations \<tau> = invocations \<sigma> \<Longrightarrow>
           \<exists>\<tau>'. fn \<tau> = (Inr v, \<tau>') \<and> invocations \<tau>' = invocations \<sigma> + n"
  shows "fst (call fn \<sigma>) = Inr v \<and> invocations (snd (call fn \<sigma>)) = invocations \<sigma> + n
         \<and> failureCount (circuitBreaker (snd (call fn \<sigma>))) = 0
         \<and> state (circuitBreaker (snd (call fn \<sigma>))) = CLOSED"
proof -
  from admit_passes[OF assms(1)] obtain b where
    b: "admit (clock \<sigma>) (circuitBreaker \<sigma>) = Inr b" by blast
  from assms(2)[of "\<sigma>\<lparr>circuitBreaker := b\<rparr>"] obtain \<tau>' where
    t: "fn (\<sigma>\<lparr>circuitBreaker := b\<rparr>) = (Inr v, \<tau>')" "invocations \<tau>' = invocations \<sigma> + n" by auto
  show ?thesis by (simp add: call_def b t onSuccess_def)
qed

lemma fetchWeather_all_fail:
  assumes valid: "validateCityName city = Inr ()" and pass: "\<not> fail_fast_now \<sigma>"
    and fails: "\<forall>i<4. isl (snd (attempt_script net city (invocations \<sigma> + i)))"
  shows "fst (fetchWeather net city \<sigma>) = snd (attempt_script net city (invocations \<sigma> + 3))
       \<and> invocations (snd (fetchWeather net city \<sigma>)) = invocations \<sigma> + 4
       \<and> randoms (snd (fetchWeather net city \<sigma>)) = randoms \<sigma> + 3
       \<and> failureCount (circuitBreaker (snd (fetchWeather net city \<sigma>)))
           = failureCount (circuitBreaker \<sigma>) + 1"
proof -
  let ?p = "new_AbortController (cancelRequests \<sigma>)"
  let ?fn = "retry_from (random net) (scripted (attempt_script net city)) 3 1000 0"
  from fails have "isl (snd (attempt_script net city (invocations \<sigma> + 3)))" by simp
  then obtain e where e: "snd (attempt_script net city (invocations \<sigma> + 3)) = Inl e"
    by (auto simp: isl_def)
  have pp: "\<not> fail_fast_now ?p" using pass by (simp add: fail_fast_prepared)
  have step: "\<exists>\<tau>'. ?fn \<tau> = (Inl e, \<tau>') \<and> invocations \<tau>' = invocations ?p + 4
                 \<and> randoms \<tau>' = randoms ?p + 3 \<and> circuitBreaker \<tau>' = circuitBreaker \<tau>"
    if i: "invocations \<tau> = invocations ?p" and r: "randoms \<tau> = randoms ?p" for \<tau>
  proof -
    have 1: "(3::nat) = nat (3 - int 0)" by simp
    have 2: "int 0 \<le> 3" by simp
    have 3: "\<forall>i\<le>3. isl (snd (attempt_script net city (invocations \<tau> + i)))"
      using fails i by (simp add: prepared_fields)
    from retry_all_fail[where script="attempt_script net city" and n=3 and mr=3 and a=0, OF 1 2 3,
        of "random net" 1000]
    show ?thesis using e i r by (auto simp: prepared_fields)
  qed
  from call_failure[of ?p ?fn e 4 3, OF pp step]
  show ?thesis by (simp add: fetchWeather_valid[OF valid] prepared_fields e)
qed

lemma fetchWeather_succeeds_at:
  assumes valid: "validateCityName city = Inr ()" and pass: "\<not> fail_fast_now \<sigma>"
    and k: "k < 4"
    and fails: "\<forall>i<k. isl (snd (attempt_script net city (invocations \<sigma> + i)))"
    and ok: "snd (attempt_script net city (invocations \<sigma> + k)) = Inr d"
  shows "fst (fetchWeather net city \<sigma>) = Inr d
       \<and> invocations (snd (fetchWeather net city \<sigma>)) = invocations \<sigma> + k + 1
       \<and> failureCount (circuitBreaker (snd (fetchWeather net city \<sigma>))) = 0
       \<and> state (circuitBreaker (snd (fetchWeather net city \<sigma>))) = CLOSED"
proof -
  let ?p = "new_AbortController (cancelRequests \<sigma>)"
  let ?fn = "retry_from (random net) (scripted (attempt_script net city)) 3 1000 0"
  have pp: "\<not> fail_fast_now ?p" using pass by (simp add: fail_fast_prepared)
  have step: "\<exists>\<tau>'. ?fn \<tau> = (Inr d, \<tau>') \<and> invocations \<tau>' = invocations ?p + (k + 1)"
    if i: "invocations \<tau> = invocations ?p" for \<tau>
  proof -
    have 1: "\<forall>i<k. isl (snd (attempt_script net city (invocations \<tau> + i)))"
      using fails i by (simp add: prepared_fields)
    have 2: "snd (attempt_script net city (invocations \<tau> + k)) = Inr d"
      using ok i by (simp add: prepared_fields)
    have 3: "int (0 + k) \<le> 3" using k by simp
    from retry_succeeds_at[where script="attempt_script net city", OF 1 2 3, of "random net" 1000]
    show ?thesis using i by auto
  qed
  from call_success[of ?p ?fn d "k + 1", OF pp step]
  show ?thesis by (simp add: fetchWeather_valid[OF valid] prepared_fields)
qed

lemma fetchWeather_fail_fast:
  assumes valid: "validateCityName city = Inr ()" and ff: "fail_fast_now \<sigma>"
  shows "fst (fetchWeather net city \<sigma>) = Inl (NetworkError ''Circuit breaker is OPEN'' None None)
       \<and> invocations (snd (fetchWeather net city \<sigma>)) = invocations \<sigma>
       \<and> randoms (snd (fetchWeather net city \<sigma>)) = randoms \<sigma>
       \<and> clock (snd (fetchWeather net city \<sigma>)) = clock \<sigma>
       \<and> circuitBreaker (snd (fetchWeather net city \<sigma>)) = circuitBreaker \<sigma>"
proof -
  let ?p = "new_AbortController (cancelRequests \<sigma>)"
  let ?fn = "retry_from (random net) (scripted (attempt_script net city)) 3 1000 0"
  have "fail_fast_now ?p" using ff by (simp add: fail_fast_prepared)
  then have c: "call ?fn ?p = (Inl (NetworkError ''Circuit breaker is OPEN'' None None), ?p)"
    by (rule call_fail_fast)
  show ?thesis by (simp add: fetchWeather_valid[OF valid] c prepared_fields)
qed

lemma attempt_script_snd:
  "snd (attempt_script net city i) =
     (if max 0 (fst (reply net city i)) < 10000 then fetchWeatherData_result (snd (reply net city i))
      else Inl (NetworkError ''Request timeout'' None (Some ''TIMEOUT'')))"
  by (simp add: attempt_script_def timed_def fetch_script_def REQUEST_TIMEOUT_def timeout_error_def
      split: prod.splits)

lemma paris_valid: "validateCityName (js ''Paris'') = Inr ()"
  by (simp add: validateCityName_def js_def city_char_def is_ascii_letter_def is_whitespace_def)

lemma new_sys_passes: "\<not> fail_fast_now (new_sys t)"
  by (simp add: fail_fast_now_def new_sys_def new_CircuitBreaker_def)

lemma open_sys_fails_fast: "fail_fast_now (open_sys 2000)"
  by (simp add: fail_fast_now_def open_sys_def new_sys_def)

text \<open>
  Claim C5, as amended. On a valid city the service runs
  \<open>Breaker.call(Retry(Timeout(rawFetch)))\<close>. The breaker is outermost: when it fails
  fast nothing else happens (no request, no backoff, no time passes), and a call whose
  four attempts all fail counts as one failure of the breaker, after four requests and
  three backoff waits. The retry executor is inside it: the first attempt that succeeds
  ends the call and closes the breaker. The timeout guard is innermost, one deadline of
  10 seconds for each attempt: an attempt whose reply takes 10 seconds or more settles
  with the timeout error and is retried like any other failure.
\<close>

theorem breaker_wraps_retry_wraps_timeout:
  assumes valid: "validateCityName city = Inr ()"
  shows "(fail_fast_now \<sigma> \<longrightarrow>
            fst (fetchWeather net city \<sigma>) = Inl (NetworkError ''Circuit breaker is OPEN'' None None)
            \<and> invocations (snd (fetchWeather net city \<sigma>)) = invocations \<sigma>
            \<and> randoms (snd (fetchWeather net city \<sigma>)) = randoms \<sigma>
            \<and> clock (snd (fetchWeather net city \<sigma>)) = clock \<sigma>
            \<and> circuitBreaker (snd (fetchWeather net city \<sigma>)) = circuitBreaker \<sigma>)
       \<and> (\<not> fail_fast_now \<sigma>
            \<and> (\<forall>i<4. isl (snd (attempt_script net city (invocations \<sigma> + i)))) \<longrightarrow>
            fst (fetchWeather net city \<sigma>) = snd (attempt_script net city (invocations \<sigma> + 3))
            \<and> invocations (snd (fetchWeather net city \<sigma>)) = invocations \<sigma> + 4
            \<and> randoms (snd (fetchWeather net city \<sigma>)) = randoms \<sigma> + 3
            \<and> failureCount (circuitBreaker (snd (fetchWeather net city \<sigma>)))
                = failureCount (circuitBreaker \<sigma>) + 1)
       \<and> (\<forall>k d. \<not> fail_fast_now \<sigma> \<and> k < 4
              \<and> (\<forall>i<k. isl (snd (attempt_script net city (invocations \<sigma> + i))))
              \<and> snd (attempt_script net city (invocations \<sigma> + k)) = Inr d \<longrightarrow>
            fst (fetchWeather net city \<sigma>) = Inr d
            \<and> invocations (snd (fetchWeather net city \<sigma>)) = invocations \<sigma> + k + 1
            \<and> failureCount (circuitBreaker (snd (fetchWeather net city \<sigma>))) = 0
            \<and> state (circuitBreaker (snd (fetchWeather net city \<sigma>))) = CLOSED)
       \<and> (\<forall>i. snd (attempt_script net city i) =
              (if max 0 (fst (reply net city i)) < 10000
               then fetchWeatherData_result (snd (reply net city i))
               else Inl (NetworkError ''Request timeout'' None (Some ''TIMEOUT''))))"
  using fetchWeather_fail_fast[OF valid, of \<sigma> net]
    fetchWeather_all_fail[OF valid, of \<sigma> net]
    fetchWeather_succeeds_at[OF valid, of \<sigma> _ net]
    attempt_script_snd[of net city]
  by blast

theorem breaker_wraps_retry_wraps_timeout_witness:
  "validateCityName (js ''Paris'') = Inr ()
   \<and> fst (fetchWeather late_then_ok (js ''Paris'') (open_sys 2000))
       = Inl (NetworkError ''Circuit breaker is OPEN'' None None)
   \<and> invocations (snd (fetchWeather late_then_ok (js ''Paris'') (open_sys 2000))) = 0
   \<and> fst (fetchWeather late_then_ok (js ''Paris'') (new_sys 0)) = Inr 7
   \<and> invocations (snd (fetchWeather late_then_ok (js ''Paris'') (new_sys 0))) = 2
   \<and> fst (fetchWeather (always 20000 (Response 200 (Json None (Weather (7::nat))))) (js ''Paris'') (new_sys 0))
       = Inl (NetworkError ''Request timeout'' None (Some ''TIMEOUT''))
   \<and> invocations (snd (fetchWeather (always 20000 (Response 200 (Json None (Weather (7::nat))))) (js ''Paris'') (new_sys 0))) = 4
   \<and> failureCount (circuitBreaker (snd (fetchWeather (always 20000 (Response 200 (Json None (Weather (7::nat))))) (js ''Paris'') (new_sys 0)))) = 1"
proof -
  let ?slow = "always 20000 (Response 200 (Json None (Weather (7::nat))))"
  note T = breaker_wraps_retry_wraps_timeout[OF paris_valid]
  have i0: "invocations (new_sys 0) = 0" "invocations (open_sys 2000) = 0"
    "failureCount (circuitBreaker (new_sys 0)) = 0"
    by (simp_all add: new_sys_def open_sys_def new_CircuitBreaker_def)
  from T[of "open_sys 2000" late_then_ok] open_sys_fails_fast
  have 1: "fst (fetchWeather late_then_ok (js ''Paris'') (open_sys 2000))
       = Inl (NetworkError ''Circuit breaker is OPEN'' None None)
     \<and> invocations (snd (fetchWeather late_then_ok (js ''Paris'') (open_sys 2000))) = invocations (open_sys 2000)"
    by blast
  have a: "snd (attempt_script late_then_ok (js ''Paris'') i) = (if i = 0 then Inl (NetworkError ''Request timeout'' None (Some ''TIMEOUT'')) else Inr 7)" for i
    using T[of "new_sys 0" late_then_ok]
    by (simp add: late_then_ok_def fetchWeatherData_result_def)
  have h2: "\<not> fail_fast_now (new_sys 0) \<and> (1::nat) < 4
              \<and> (\<forall>i<1. isl (snd (attempt_script late_then_ok (js ''Paris'') (invocations (new_sys 0) + i))))
              \<and> snd (attempt_script late_then_ok (js ''Paris'') (invocations (new_sys 0) + 1)) = Inr 7"
    by (simp add: new_sys_passes a i0)
  from T[of "new_sys 0" late_then_ok] h2
  have 2: "fst (fetchWeather late_then_ok (js ''Paris'') (new_sys 0)) = Inr 7
     \<and> invocations (snd (fetchWeather late_then_ok (js ''Paris'') (new_sys 0))) = invocations (new_sys 0) + 1 + 1"
    by blast
  have b: "snd (attempt_script ?slow (js ''Paris'') i) = Inl (NetworkError ''Request timeout'' None (Some ''TIMEOUT''))" for i
    using T[of "new_sys 0" ?slow] by (simp add: always_def)
  have h3: "\<not> fail_fast_now (new_sys 0)
            \<and> (\<forall>i<4. isl (snd (attempt_script ?slow (js ''Paris'') (invocations (new_sys 0) + i))))"
    by (simp add: new_sys_passes b)
  from T[of "new_sys 0" ?slow] h3
  have 3: "fst (fetchWeather ?slow (js ''Paris'') (new_sys 0)) = snd (attempt_script ?slow (js ''Paris'') (invocations (new_sys 0) + 3))
            \<and> invocations (snd (fetchWeather ?slow (js ''Paris'') (new_sys 0))) = invocations (new_sys 0) + 4
            \<and> failureCount (circuitBreaker (snd (fetchWeather ?slow (js ''Paris'') (new_sys 0))))
                = failureCount (circuitBreaker (new_sys 0)) + 1"
    by blast
  show ?thesis using paris_valid 1 2 3 by (simp add: i0 b)
qed

text \<open>
  Against claim C5 as stated: with a server that always answers 500, the service
  records one failure of the breaker for the call, where the composition
  \<open>Timeout(Retry(Breaker.call(rawFetch)))\<close> records four.
\<close>

theorem code_order_differs_from_specified_order:
  "failureCount (circuitBreaker (snd (fetchWeather (always 100 (Response 500 JsonError :: nat fetch_reply)) (js ''Paris'') (new_sys 0)))) = 1
   \<and> failureCount (circuitBreaker (snd (spec_fetchWeather (always 100 (Response 500 JsonError :: nat fetch_reply)) (js ''Paris'') (new_sys 0)))) = 4
   \<and> fetchWeather (always 100 (Response 500 JsonError :: nat fetch_reply)) (js ''Paris'') (new_sys 0)
       \<noteq> spec_fetchWeather (always 100 (Response 500 JsonError)) (js ''Paris'') (new_sys 0)"
proof -
  have a: "failureCount (circuitBreaker (snd (fetchWeather (always 100 (Response 500 JsonError :: nat fetch_reply)) (js ''Paris'') (new_sys 0)))) = 1"
    by (simp add: eval_defs retry_from.simps)
  have b: "failureCount (circuitBreaker (snd (spec_fetchWeather (always 100 (Response 500 JsonError :: nat fetch_reply)) (js ''Paris'') (new_sys 0)))) = 4"
    by (simp add: eval_defs retry_from.simps)
  from a b have "fetchWeather (always 100 (Response 500 JsonError :: nat fetch_reply)) (js ''Paris'') (new_sys 0)
       \<noteq> spec_fetchWeather (always 100 (Response 500 JsonError)) (js ''Paris'') (new_sys 0)"
    by auto
  with a b show ?thesis by blast
qed




subsection \<open>Errors of the API and retries\<close>




lemma digits_and_accents_are_bad:
  "(0x30 \<le> c \<and> c \<le> 0x39 \<longrightarrow> \<not> city_char c)
   \<and> (0xC0 \<le> c \<and> c \<le> 0x24F \<longrightarrow> \<not> city_char c)"
  unfolding city_char_def is_ascii_letter_def is_whitespace_def
  by (intro conjI impI; unat_arith)

subsection \<open>Validation of the city name\<close>

text \<open>
  Claim C10, as amended. \<open>fetchWeather(city)\<close> rejects with a \<open>ValidationError\<close> and
  leaves the whole state as it was (no request, breaker, retry counters and abort
  controller untouched) when the city is empty, longer than 100 code units, or has a
  code unit that is not an ASCII letter, white space (the class \<open>\s\<close>), hyphen,
  apostrophe, comma or full stop; every other city passes the validation. Digits and
  accented Latin letters are among the rejected code units.
\<close>

theorem invalid_city_rejected_before_any_request:
  "(bad_city city \<longrightarrow>
      (\<exists>msg. fetchWeather net city \<sigma> = (Inl (ValidationError msg None), \<sigma>)))
   \<and> (\<not> bad_city city \<longrightarrow> validateCityName city = Inr ())
   \<and> ((\<exists>c\<in>set city. (0x30 \<le> c \<and> c \<le> 0x39) \<or> (0xC0 \<le> c \<and> c \<le> 0x24F)) \<longrightarrow> bad_city city)"
proof -
  have A: "bad_city city \<longrightarrow> (\<exists>msg. fetchWeather net city \<sigma> = (Inl (ValidationError msg None), \<sigma>))"
    by (auto simp: bad_city_def fetchWeather_def validateCityName_def city_char_def list_all_iff)
  have B: "\<not> bad_city city \<longrightarrow> validateCityName city = Inr ()"
    by (auto simp: bad_city_def validateCityName_def city_char_def list_all_iff)
  have C: "(\<exists>c\<in>set city. (0x30 \<le> c \<and> c \<le> 0x39) \<or> (0xC0 \<le> c \<and> c \<le> 0x24F)) \<longrightarrow> bad_city city"
    using digits_and_accents_are_bad by (auto simp: bad_city_def city_char_def)
  show ?thesis using A B C by blast
qed

theorem invalid_city_rejected_before_any_request_witness:
  "bad_city (js ''Paris2'') \<and> bad_city [] \<and> bad_city (js ''S'' @ [0xE3] @ js ''o'')
   \<and> (\<exists>msg. fetchWeather (always 100 (Response 200 (Json None (Weather (7::nat))))) (js ''Paris2'') (new_sys 0)
        = (Inl (ValidationError msg None), new_sys 0))
   \<and> \<not> bad_city (js ''Paris'') \<and> validateCityName (js ''Paris'') = Inr ()"
proof -
  have a: "bad_city (js ''Paris2'')" "bad_city []" "bad_city (js ''S'' @ [0xE3] @ js ''o'')"
    "\<not> bad_city (js ''Paris'')"
    by (simp_all add: bad_city_def js_def is_ascii_letter_def is_whitespace_def)
  from invalid_city_rejected_before_any_request[of "js ''Paris2''" "always 100 (Response 200 (Json None (Weather (7::nat))))" "new_sys 0"]
    invalid_city_rejected_before_any_request[of "js ''Paris''" "always 100 (Response 200 (Json None (Weather (7::nat))))" "new_sys 0"]
    a
  show ?thesis by blast
qed

text \<open>
  Against claim C10 as stated: a tab is none of letter, space, hyphen, apostrophe, comma
  and full stop, and a city name with a tab passes the validation and is requested.
\<close>

theorem tab_in_city_is_accepted:
  "validateCityName (js ''New'' @ [0x09] @ js ''York'') = Inr ()
   \<and> fst (fetchWeather (always 100 (Response 200 (Json None (Weather (7::nat))))) (js ''New'' @ [0x09] @ js ''York'') (new_sys 0)) = Inr 7
   \<and> invocations (snd (fetchWeather (always 100 (Response 200 (Json None (Weather (7::nat))))) (js ''New'' @ [0x09] @ js ''York'') (new_sys 0))) = 1"
  by (simp add: eval_defs retry_from.simps)

section \<open>Supersession in the hook\<close>

text \<open>
  A run of the hook depends on \<open>toLowerCase\<close> only through the cities that are asked
  for, after trimming.
\<close>

lemma resolve_cong:
  assumes "f (trim city) = g (trim city)"
  shows "resolve f now city h = resolve g now city h"
  unfolding resolve_def assms by (rule refl)

lemma step_cong:
  assumes "\<And>now city. ev = Resolve now city \<Longrightarrow> f (trim city) = g (trim city)"
  shows "step f ev h = step g ev h"
proof (cases ev)
  case (Resolve now city)
  with assms have "f (trim city) = g (trim city)" by simp
  then have "resolve f now city h = resolve g now city h" by (rule resolve_cong)
  then show ?thesis by (simp add: Resolve)
qed simp_all

lemma run_events_cong:
  assumes "\<And>now city. Resolve now city \<in> set evs \<Longrightarrow> f (trim city) = g (trim city)"
  shows "run_events f evs h = run_events g evs h"
  using assms
proof (induction evs arbitrary: h)
  case Nil
  then show ?case by (simp add: run_events_def)
next
  case (Cons ev evs)
  have 1: "step f ev h = step g ev h"
  proof (rule step_cong)
    fix now city
    assume "ev = Resolve now city"
    then have "Resolve now city \<in> set (ev # evs)" by simp
    then show "f (trim city) = g (trim city)" by (rule Cons.prems)
  qed
  have 2: "run_events f evs (step g ev h) = run_events g evs (step g ev h)"
  proof (rule Cons.IH)
    fix now city
    assume "Resolve now city \<in> set evs"
    then have "Resolve now city \<in> set (ev # evs)" by simp
    then show "f (trim city) = g (trim city)" by (rule Cons.prems)
  qed
  show ?case using 1 2 by (simp add: run_events_def)
qed

lemma trim_paris_lyon: "trim (js ''Paris'') = js ''Paris''" "trim (js ''Lyon'') = js ''Lyon''"
  by (simp_all add: trim_def js_def is_whitespace_def)

lemma ascii_lower_paris_lyon:
  "ascii_lower (js ''Paris'') = js ''paris''" "ascii_lower (js ''Lyon'') = js ''lyon''"
  by (simp_all add: ascii_lower_def js_def)

lemma cities_of_runs:
  "Resolve now city \<in> set lyon_cached_then_paris_then_lyon \<Longrightarrow>
     city = js ''Paris'' \<or> city = js ''Lyon''"
  "Resolve now city \<in> set (take 4 lyon_cached_then_paris_then_lyon) \<Longrightarrow>
     city = js ''Paris'' \<or> city = js ''Lyon''"
  "Resolve now city \<in> set paris_then_lyon \<Longrightarrow> city = js ''Paris'' \<or> city = js ''Lyon''"
  "Resolve now city \<in> set (take 4 paris_then_lyon) \<Longrightarrow>
     city = js ''Paris'' \<or> city = js ''Lyon''"
  by (auto simp: lyon_cached_then_paris_then_lyon_def paris_then_lyon_def)

lemma lyon_shown_while_paris_in_flight:
  "shown (run_events ascii_lower (take 4 lyon_cached_then_paris_then_lyon) (new_hook 0))
     = Some ''weather of Lyon''
   \<and> map cityName
        (inflight (run_events ascii_lower (take 4 lyon_cached_then_paris_then_lyon) (new_hook 0)))
     = [js ''Paris'']
   \<and> map signal
        (inflight (run_events ascii_lower (take 4 lyon_cached_then_paris_then_lyon) (new_hook 0)))
     = [Some 3]
   \<and> 3 \<notin> set (aborted (service
        (run_events ascii_lower (take 4 lyon_cached_then_paris_then_lyon) (new_hook 0))))"
  by code_simp

lemma paris_shown_after_lyon_from_cache:
  "shown (run_events ascii_lower lyon_cached_then_paris_then_lyon (new_hook 0))
     = Some ''weather of Paris''"
  by code_simp

lemma lyon_shown_while_paris_backs_off:
  "shown (run_events ascii_lower (take 4 paris_then_lyon) (new_hook 0)) = Some ''weather of Lyon''
   \<and> map cityName (inflight (run_events ascii_lower (take 4 paris_then_lyon) (new_hook 0)))
     = [js ''Paris'']
   \<and> map sleeping (inflight (run_events ascii_lower (take 4 paris_then_lyon) (new_hook 0)))
     = [True]"
  by code_simp

lemma paris_shown_after_lyon_from_network:
  "shown (run_events ascii_lower paris_then_lyon (new_hook 0)) = Some ''weather of Paris''"
  by code_simp

text \<open>
  Claim C4 at two failing inputs, for every \<open>toLowerCase\<close> that maps \<open>Paris\<close> to
  \<open>paris\<close> and \<open>Lyon\<close> to \<open>lyon\<close>, as the runtime's does. First run: Lyon is in the
  cache, Paris is asked for and, before its request settles, Lyon is asked for again.
  Lyon is served from the cache and shown; the request for Paris is still in flight, its
  signal not aborted (the service was not called, and the signal of the hook's own
  controller is given to nobody); when it settles, the weather of Paris replaces the
  weather of Lyon. Second run, with an empty cache: Paris, then Lyon. The request for
  Paris is aborted and the weather of Lyon is shown, but the retry loop of the call for
  Paris takes the abort for a failure, waits and sends its request again, now with
  Lyon's signal; when that settles, the weather of Paris replaces the weather of Lyon.
\<close>

theorem superseded_result_replaces_the_latest:
  assumes p: "toLowerCase (js ''Paris'') = js ''paris''"
    and l: "toLowerCase (js ''Lyon'') = js ''lyon''"
  shows "shown (run_events toLowerCase (take 4 lyon_cached_then_paris_then_lyon) (new_hook 0))
     = Some ''weather of Lyon''
   \<and> shown (run_events toLowerCase lyon_cached_then_paris_then_lyon (new_hook 0))
     = Some ''weather of Paris''
   \<and> shown (run_events toLowerCase (take 4 paris_then_lyon) (new_hook 0))
     = Some ''weather of Lyon''
   \<and> shown (run_events toLowerCase paris_then_lyon (new_hook 0)) = Some ''weather of Paris''"
proof -
  have same: "toLowerCase (trim city) = ascii_lower (trim city)"
    if "city = js ''Paris'' \<or> city = js ''Lyon''" for city
    using that p l by (auto simp: trim_paris_lyon ascii_lower_paris_lyon)
  have 1: "run_events toLowerCase (take 4 lyon_cached_then_paris_then_lyon) (new_hook 0)
         = (run_events ascii_lower (take 4 lyon_cached_then_paris_then_lyon) (new_hook 0)
              :: string hook)"
    by (rule run_events_cong) (rule same, erule cities_of_runs(2))
  have 2: "run_events toLowerCase lyon_cached_then_paris_then_lyon (new_hook 0)
         = (run_events ascii_lower lyon_cached_then_paris_then_lyon (new_hook 0) :: string hook)"
    by (rule run_events_cong) (rule same, erule cities_of_runs(1))
  have 3: "run_events toLowerCase (take 4 paris_then_lyon) (new_hook 0)
         = (run_events ascii_lower (take 4 paris_then_lyon) (new_hook 0) :: string hook)"
    by (rule run_events_cong) (rule same, erule cities_of_runs(4))
  have 4: "run_events toLowerCase paris_then_lyon (new_hook 0)
         = (run_events ascii_lower paris_then_lyon (new_hook 0) :: string hook)"
    by (rule run_events_cong) (rule same, erule cities_of_runs(3))
  have a: "shown (run_events ascii_lower (take 4 lyon_cached_then_paris_then_lyon) (new_hook 0))
     = Some ''weather of Lyon''"
    using lyon_shown_while_paris_in_flight by (rule conjunct1)
  have b: "shown (run_events ascii_lower (take 4 paris_then_lyon) (new_hook 0))
     = Some ''weather of Lyon''"
    using lyon_shown_while_paris_backs_off by (rule conjunct1)
  show ?thesis
    by (simp only: 1 2 3 4 a b paris_shown_after_lyon_from_cache
        paris_shown_after_lyon_from_network simp_thms)
qed

theorem superseded_result_replaces_the_latest_witness:
  "ascii_lower (js ''Paris'') = js ''paris'' \<and> ascii_lower (js ''Lyon'') = js ''lyon''
   \<and> shown (run_events ascii_lower (take 4 lyon_cached_then_paris_then_lyon) (new_hook 0))
     = Some ''weather of Lyon''
   \<and> shown (run_events ascii_lower lyon_cached_then_paris_then_lyon (new_hook 0))
     = Some ''weather of Paris''
   \<and> shown (run_events ascii_lower (take 4 paris_then_lyon) (new_hook 0))
     = Some ''weather of Lyon''
   \<and> shown (run_events ascii_lower paris_then_lyon (new_hook 0)) = Some ''weather of Paris''"
  using superseded_result_replaces_the_latest[OF ascii_lower_paris_lyon]
  by (simp only: ascii_lower_paris_lyon simp_thms)

end
